theory Spec2Isabelle
  imports Main "HOL-Library.Word"
begin

unbundle bit_operations_syntax

section \<open>Shared declarations\<close>

type_synonym u32 = "32 word"
type_synonym u64 = "64 word"

text \<open>
  \<^verbatim>\<open>SOCKET_FD\<close> is \<^verbatim>\<open>int\<close> on the platform of \<^verbatim>\<open>EPoll.cpp\<close>. Descriptors are modelled as
  mathematical integers; the two places where the source mixes \<^verbatim>\<open>int\<close> with \<^verbatim>\<open>size_t\<close>
  are written out where they occur.
\<close>

type_synonym SOCKET_FD = int

text \<open>The members of \<^verbatim>\<open>KMError\<close> that the two source files return.\<close>

datatype KMError = NOERR | FAILED | INVALID_PARAM

text \<open>
  The macros of \<^verbatim>\<open>kmdefs.h\<close> that the source uses. The header is not among the source
  files, so their values are parameters of every function that mentions them.
\<close>

record kmdefs =
  INVALID_FD :: SOCKET_FD
  KUMA_EV_READ :: u32
  KUMA_EV_WRITE :: u32
  KUMA_EV_ERROR :: u32

text \<open>The event bits of \<^verbatim>\<open><sys/epoll.h>\<close> and \<^verbatim>\<open>EINTR\<close> of \<^verbatim>\<open><errno.h>\<close>, as Linux fixes them.\<close>

definition EPOLLIN :: u32 where "EPOLLIN = 0x001"
definition EPOLLOUT :: u32 where "EPOLLOUT = 0x004"
definition EPOLLERR :: u32 where "EPOLLERR = 0x008"
definition EPOLLHUP :: u32 where "EPOLLHUP = 0x010"
definition EPOLLET :: u32 where "EPOLLET = 0x80000000"

definition EINTR :: int where "EINTR = 4"

definition MAX_EVENT_NUM :: nat where "MAX_EVENT_NUM = 500"

text \<open>
  The trace macros write a line to the log. The model keeps the level and the fixed text
  of each line and drops the numbers streamed after it.
\<close>

datatype trace = KUMA_INFOTRACE string | KUMA_WARNTRACE string | KUMA_ERRTRACE string

section \<open>The edge-triggered multiplexer (\<^verbatim>\<open>EPoll.cpp\<close>)\<close>

subsection \<open>State\<close>

text \<open>
  An \<^verbatim>\<open>IOCallback\<close> is a \<^verbatim>\<open>std::function<void(uint32_t)>\<close>: either empty (\<open>None\<close>) or a
  closure, named here by a handle. What a closure does when it is called is given by a
  parameter \<open>invoke\<close> of the functions that call one.
\<close>

type_synonym IOCallback = "nat option"

text \<open>
  The members of \<^verbatim>\<open>PollItem\<close> that \<^verbatim>\<open>EPoll.cpp\<close> reads and writes (\<^verbatim>\<open>fd\<close>, \<^verbatim>\<open>events\<close>, \<^verbatim>\<open>cb\<close>),
  and the \<^verbatim>\<open>epoll_event\<close> of the kernel interface with its \<^verbatim>\<open>events\<close> and \<^verbatim>\<open>data.ptr\<close>, in
  which \<^verbatim>\<open>registerFd\<close> stores the descriptor.
\<close>

record PollItem =
  item_fd :: SOCKET_FD
  item_events :: u32
  item_cb :: IOCallback

record epoll_event =
  ev_events :: u32
  ev_data_ptr :: SOCKET_FD

datatype epoll_op = EPOLL_CTL_ADD | EPOLL_CTL_DEL | EPOLL_CTL_MOD

text \<open>
  The state of an \<^verbatim>\<open>EPoll\<close> object: its members \<^verbatim>\<open>epoll_fd_\<close> and \<^verbatim>\<open>poll_items_\<close> (a
  name cannot end in an underscore here, so the fields drop it), the log, and in
  \<open>user\<close> everything else that a callback can reach.
\<close>

record 'w EPoll =
  epoll_fd :: int
  poll_items :: "PollItem list"
  kmtrace :: "trace list"
  user :: 'w

text \<open>
  The kernel is not part of the program. \<^verbatim>\<open>epoll_ctl\<close> is a parameter that gives the
  return value of the call from its arguments (the polling context, the operation, the
  descriptor and the event, absent for \<^verbatim>\<open>NULL\<close>); \<^verbatim>\<open>epoll_wait\<close> gives the return value,
  \<^verbatim>\<open>errno\<close> and the contents of the event array.
\<close>

type_synonym epoll_ctl_fn = "int \<Rightarrow> epoll_op \<Rightarrow> SOCKET_FD \<Rightarrow> epoll_event option \<Rightarrow> int"

record epoll_wait_result =
  wait_ret :: int
  wait_errno :: int
  wait_events :: "epoll_event list"

type_synonym epoll_wait_fn = "int \<Rightarrow> nat \<Rightarrow> u32 \<Rightarrow> epoll_wait_result"

definition ktrace :: "trace \<Rightarrow> 'w EPoll \<Rightarrow> 'w EPoll" where
  "ktrace t s = s\<lparr>kmtrace := kmtrace s @ [t]\<rparr>"

subsection \<open>The registration table of \<^verbatim>\<open>IOPoll.h\<close>\<close>

text \<open>
  Modelled from the spec: \<^verbatim>\<open>IOPoll.h\<close>, which declares \<^verbatim>\<open>PollItem\<close>, its \<^verbatim>\<open>reset\<close> and
  \<^verbatim>\<open>resizePollItems\<close>, is not among the source files. A fresh slot holds the "unused"
  sentinel in its descriptor field and no callback.
\<close>

definition PollItem_init :: "kmdefs \<Rightarrow> PollItem" where
  "PollItem_init d = \<lparr>item_fd = INVALID_FD d, item_events = 0, item_cb = None\<rparr>"

text \<open>
  Modelled from the spec: retiring a slot sets its descriptor field to the "unused"
  sentinel and drops its callback (\<^verbatim>\<open>PollItem::reset\<close> of \<^verbatim>\<open>IOPoll.h\<close>).
\<close>

definition reset :: "kmdefs \<Rightarrow> PollItem \<Rightarrow> PollItem" where
  "reset d p = p\<lparr>item_fd := INVALID_FD d, item_cb := None\<rparr>"

text \<open>
  Modelled from the spec: registering a handle beyond the current table grows the table
  up to that index, filling the new slots with unused ones (\<^verbatim>\<open>IOPoll::resizePollItems\<close>
  of \<^verbatim>\<open>IOPoll.h\<close>). It is called with a non-negative descriptor only.
\<close>

definition resizePollItems :: "kmdefs \<Rightarrow> SOCKET_FD \<Rightarrow> PollItem list \<Rightarrow> PollItem list" where
  "resizePollItems d fd items =
     (if fd \<ge> int (length items)
      then items @ replicate (nat (fd + 1) - length items) (PollItem_init d)
      else items)"

subsection \<open>Event translation\<close>

definition get_events :: "kmdefs \<Rightarrow> u32 \<Rightarrow> u32" where
  "get_events d kuma_events =
     (let ev = EPOLLET;
          ev = (if kuma_events AND KUMA_EV_READ d \<noteq> 0 then ev OR EPOLLIN else ev);
          ev = (if kuma_events AND KUMA_EV_WRITE d \<noteq> 0 then ev OR EPOLLOUT else ev);
          ev = (if kuma_events AND KUMA_EV_ERROR d \<noteq> 0 then ev OR (EPOLLERR OR EPOLLHUP) else ev)
      in ev)"

definition get_kuma_events :: "kmdefs \<Rightarrow> u32 \<Rightarrow> u32" where
  "get_kuma_events d events =
     (let ev = 0;
          ev = (if events AND EPOLLIN \<noteq> 0 then ev OR KUMA_EV_READ d else ev);
          ev = (if events AND EPOLLOUT \<noteq> 0 then ev OR KUMA_EV_WRITE d else ev);
          ev = (if events AND (EPOLLERR OR EPOLLHUP) \<noteq> 0 then ev OR KUMA_EV_ERROR d else ev)
      in ev)"

subsection \<open>Registration\<close>

text \<open>
  \<^verbatim>\<open>registerFd\<close> writes the slot before it calls the kernel, and returns after the call
  without touching the table again.
\<close>

definition registerFd ::
  "kmdefs \<Rightarrow> epoll_ctl_fn \<Rightarrow> SOCKET_FD \<Rightarrow> u32 \<Rightarrow> IOCallback \<Rightarrow> 'w EPoll \<Rightarrow> KMError \<times> 'w EPoll" where
  "registerFd d epoll_ctl fd events cb s =
     (if fd < 0 then (INVALID_PARAM, s)
      else
        let items = resizePollItems d fd (poll_items s);
            epoll_op = (if INVALID_FD d \<noteq> item_fd (items ! nat fd)
                        then EPOLL_CTL_MOD else EPOLL_CTL_ADD);
            items = items[nat fd := (items ! nat fd)
                       \<lparr>item_fd := fd, item_events := events, item_cb := cb\<rparr>];
            s = s\<lparr>poll_items := items\<rparr>;
            evt = \<lparr>ev_events = get_events d events, ev_data_ptr = fd\<rparr>
        in if epoll_ctl (epoll_fd s) epoll_op fd (Some evt) < 0
           then (FAILED, ktrace (KUMA_ERRTRACE ''EPoll::registerFd error'') s)
           else (NOERR, ktrace (KUMA_INFOTRACE ''EPoll::registerFd'') s))"

text \<open>
  \<^verbatim>\<open>int max_fd = int(poll_items_.size() - 1)\<close> is \<open>-1\<close> for the empty table (the
  subtraction wraps in \<^verbatim>\<open>size_t\<close> and the cast brings it back) and the size minus one
  otherwise: a table indexed by \<^verbatim>\<open>int\<close> descriptors has at most \<open>2 ^ 31\<close> slots. The
  return value of the \<^verbatim>\<open>EPOLL_CTL_DEL\<close> call is not looked at.
\<close>

definition unregisterFd ::
  "kmdefs \<Rightarrow> epoll_ctl_fn \<Rightarrow> SOCKET_FD \<Rightarrow> 'w EPoll \<Rightarrow> KMError \<times> 'w EPoll" where
  "unregisterFd d epoll_ctl fd s =
     (let max_fd = int (length (poll_items s)) - 1;
          s = ktrace (KUMA_INFOTRACE ''EPoll::unregisterFd'') s
      in if fd < 0 \<or> fd > max_fd
         then (INVALID_PARAM, ktrace (KUMA_WARNTRACE ''EPoll::unregisterFd, failed'') s)
         else
           let ignored = epoll_ctl (epoll_fd s) EPOLL_CTL_DEL fd None
           in if fd < max_fd
              then (NOERR, s\<lparr>poll_items :=
                      (poll_items s)[nat fd := reset d (poll_items s ! nat fd)]\<rparr>)
              else if fd = max_fd
              then (NOERR, s\<lparr>poll_items := butlast (poll_items s)\<rparr>)
              else (NOERR, s))"

text \<open>
  In \<^verbatim>\<open>fd >= poll_items_.size()\<close> the descriptor is converted to \<^verbatim>\<open>size_t\<close>; the test
  \<^verbatim>\<open>fd < 0\<close> before it has already excluded the negative ones, so the conversion keeps the
  value. The third test reads the slot only when the first two have failed.
\<close>

definition updateFd ::
  "kmdefs \<Rightarrow> epoll_ctl_fn \<Rightarrow> SOCKET_FD \<Rightarrow> u32 \<Rightarrow> 'w EPoll \<Rightarrow> KMError \<times> 'w EPoll" where
  "updateFd d epoll_ctl fd events s =
     (if fd < 0 \<or> fd \<ge> int (length (poll_items s))
          \<or> INVALID_FD d = item_fd (poll_items s ! nat fd)
      then (FAILED, s)
      else
        let evt = \<lparr>ev_events = get_events d events, ev_data_ptr = fd\<rparr>
        in if epoll_ctl (epoll_fd s) EPOLL_CTL_MOD fd (Some evt) < 0
           then (FAILED, ktrace (KUMA_ERRTRACE ''EPoll::updateFd error'') s)
           else (NOERR, s\<lparr>poll_items :=
                   (poll_items s)[nat fd := (poll_items s ! nat fd)\<lparr>item_events := events\<rparr>]\<rparr>))"

subsection \<open>Waiting and dispatch\<close>

text \<open>
  The body of the \<^verbatim>\<open>for\<close> loop of \<^verbatim>\<open>wait\<close>, over the reported events in order. In
  \<^verbatim>\<open>fd < poll_items_.size()\<close> the descriptor is converted to \<^verbatim>\<open>size_t\<close>, so a negative
  one compares as a huge value and fails the test: the slot is read for
  \<open>0 \<le> fd < size\<close> only. A callback runs on the state as it is when its turn comes,
  and may change the table. The calls made are returned along with the state.
\<close>

fun dispatch ::
  "kmdefs \<Rightarrow> (nat \<Rightarrow> u32 \<Rightarrow> 'w EPoll \<Rightarrow> 'w EPoll) \<Rightarrow> epoll_event list \<Rightarrow>
   (nat \<times> u32) list \<Rightarrow> 'w EPoll \<Rightarrow> (nat \<times> u32) list \<times> 'w EPoll" where
  "dispatch d invoke [] calls s = (calls, s)"
| "dispatch d invoke (e # es) calls s =
     (let fd = ev_data_ptr e
      in if 0 \<le> fd \<and> fd < int (length (poll_items s))
         then (case item_cb (poll_items s ! nat fd) of
                 None \<Rightarrow> dispatch d invoke es calls s
               | Some k \<Rightarrow>
                   dispatch d invoke es
                     (calls @ [(k, get_kuma_events d (ev_events e))])
                     (invoke k (get_kuma_events d (ev_events e)) s))
         else dispatch d invoke es calls s)"

text \<open>
  \<^verbatim>\<open>wait\<close> returns the error kind, the callbacks it has called with their arguments, and
  the state. The loop runs over the first \<^verbatim>\<open>nfds\<close> entries of the event array.
\<close>

definition wait ::
  "kmdefs \<Rightarrow> epoll_wait_fn \<Rightarrow> (nat \<Rightarrow> u32 \<Rightarrow> 'w EPoll \<Rightarrow> 'w EPoll) \<Rightarrow> u32 \<Rightarrow> 'w EPoll \<Rightarrow>
   KMError \<times> (nat \<times> u32) list \<times> 'w EPoll" where
  "wait d epoll_wait invoke wait_ms s =
     (let r = epoll_wait (epoll_fd s) MAX_EVENT_NUM wait_ms;
          nfds = wait_ret r
      in if nfds < 0
         then
           (let s = (if wait_errno r \<noteq> EINTR
                     then ktrace (KUMA_ERRTRACE ''EPoll::wait'') s else s);
                s = ktrace (KUMA_INFOTRACE ''EPoll::wait'') s
            in (NOERR, [], s))
         else
           (let (calls, s) = dispatch d invoke (take (nat nfds) (wait_events r)) [] s
            in (NOERR, calls, s)))"

section \<open>The event loop (\<^verbatim>\<open>EventLoopImpl.cpp\<close>)\<close>

subsection \<open>State and collaborators\<close>

text \<open>
  A \<^verbatim>\<open>LoopCallback\<close> is a \<^verbatim>\<open>std::function<void()>\<close>: empty (\<open>None\<close>) or a closure named
  by a handle. A listener is a \<^verbatim>\<open>Listener*\<close>, compared by identity.
\<close>

type_synonym LoopCallback = "nat option"

text \<open>
  The members \<^verbatim>\<open>cb_queue_\<close>, \<^verbatim>\<open>stop_loop_\<close> and \<^verbatim>\<open>listeners_\<close> of \<^verbatim>\<open>EventLoopImpl\<close> (without
  the final underscore), and in \<open>others\<close> the multiplexer, the timers and whatever
  else the tasks and callbacks work on. One thread, the owning one, steps this state.
\<close>

record 'w EventLoopImpl =
  cb_queue :: "LoopCallback list"
  stop_loop :: bool
  listeners :: "nat list"
  others :: 'w

text \<open>
  Modelled from the spec: the task queue of \<^verbatim>\<open>util/kmqueue.h\<close>, which is not among the
  source files, is a FIFO: \<^verbatim>\<open>enqueue\<close> adds at the back, \<^verbatim>\<open>dequeue\<close> takes from the front and
  says whether there was an entry.
\<close>

definition enqueue :: "'a \<Rightarrow> 'a list \<Rightarrow> 'a list" where
  "enqueue x q = q @ [x]"

fun dequeue :: "'a list \<Rightarrow> ('a \<times> 'a list) option" where
  "dequeue [] = None"
| "dequeue (x # q) = Some (x, q)"

text \<open>
  \<^verbatim>\<open>queueInEventLoop\<close>, called on the owning thread (from a task, say): the callback goes
  to the back of the queue and nothing wakes the multiplexer, which is not waiting.
\<close>

definition queueInEventLoop ::
  "LoopCallback \<Rightarrow> 'w EventLoopImpl \<Rightarrow> KMError \<times> 'w EventLoopImpl" where
  "queueInEventLoop cb s = (NOERR, s\<lparr>cb_queue := enqueue cb (cb_queue s)\<rparr>)"

text \<open>
  The code that the loop calls and that is not the loop's own: what a task does
  (\<open>run_cb\<close>), \<^verbatim>\<open>TimerManager::checkExpire\<close> (it gets the budget and returns the new one),
  the multiplexer's \<^verbatim>\<open>wait\<close> behind the \<^verbatim>\<open>IOPoll\<close> interface, and a listener's
  \<^verbatim>\<open>loopStopped\<close>. Each works on the whole loop state: a task may enqueue tasks, stop the
  loop, add listeners.
\<close>

record 'w collaborators =
  run_cb :: "nat \<Rightarrow> 'w EventLoopImpl \<Rightarrow> 'w EventLoopImpl"
  checkExpire :: "u64 \<Rightarrow> 'w EventLoopImpl \<Rightarrow> u64 \<times> 'w EventLoopImpl"
  poll_wait :: "u32 \<Rightarrow> 'w EventLoopImpl \<Rightarrow> 'w EventLoopImpl"
  loopStopped :: "nat \<Rightarrow> 'w EventLoopImpl \<Rightarrow> 'w EventLoopImpl"

text \<open>
  What the loop itself does, in order: the calls it makes, with their arguments, and the
  lines it writes to the log.
\<close>

datatype step = RunTask nat | CheckExpire u64 | PollWait u32 | LoopStopped nat | Trace trace

subsection \<open>Listeners\<close>

text \<open>
  \<^verbatim>\<open>addListener\<close> is a \<^verbatim>\<open>push_back\<close>; \<^verbatim>\<open>removeListener\<close> erases the first entry equal to the
  listener and stops.
\<close>

definition addListener :: "nat \<Rightarrow> 'w EventLoopImpl \<Rightarrow> 'w EventLoopImpl" where
  "addListener l s = s\<lparr>listeners := listeners s @ [l]\<rparr>"

definition removeListener :: "nat \<Rightarrow> 'w EventLoopImpl \<Rightarrow> 'w EventLoopImpl" where
  "removeListener l s = s\<lparr>listeners := remove1 l (listeners s)\<rparr>"

subsection \<open>Draining the queue\<close>

text \<open>
  \<^verbatim>\<open>while (cb_queue_.dequeue(cb)) { if (cb) cb(); }\<close>, as it stands in \<^verbatim>\<open>loopOnce\<close> and in
  \<^verbatim>\<open>loop\<close>. A task that enqueues a task each time it runs keeps the loop going for ever,
  so the result is an option and \<open>None\<close> stands for not returning. The steps made are
  added to \<open>tr\<close>.
\<close>

partial_function (option) drain ::
  "'w collaborators \<Rightarrow> step list \<Rightarrow> 'w EventLoopImpl \<Rightarrow> (step list \<times> 'w EventLoopImpl) option" where
  "drain c tr s =
     (case dequeue (cb_queue s) of
        None \<Rightarrow> Some (tr, s)
      | Some (cb, q) \<Rightarrow>
          (case cb of
             None \<Rightarrow> drain c tr (s\<lparr>cb_queue := q\<rparr>)
           | Some k \<Rightarrow> drain c (tr @ [RunTask k]) (run_cb c k (s\<lparr>cb_queue := q\<rparr>))))"

subsection \<open>One iteration\<close>

text \<open>
  \<^verbatim>\<open>wait_ms\<close> is an \<^verbatim>\<open>unsigned long\<close> (64 bits where \<^verbatim>\<open>epoll\<close> exists), \<^verbatim>\<open>max_wait_ms\<close> a
  \<^verbatim>\<open>uint32_t\<close>; the comparison is made in 64 bits and the cast for \<^verbatim>\<open>wait\<close> keeps the low
  32 bits.
\<close>

definition loopOnce ::
  "'w collaborators \<Rightarrow> u32 \<Rightarrow> 'w EventLoopImpl \<Rightarrow> (step list \<times> 'w EventLoopImpl) option" where
  "loopOnce c max_wait_ms s =
     (case drain c [] s of
        None \<Rightarrow> None
      | Some (tr, s) \<Rightarrow>
          (let wait_ms = (ucast max_wait_ms :: u64);
               (wait_ms', s) = checkExpire c wait_ms s;
               wait_ms'' = (if wait_ms' > ucast max_wait_ms then ucast max_wait_ms else wait_ms');
               budget = (ucast wait_ms'' :: u32)
           in Some (tr @ [CheckExpire wait_ms, PollWait budget], poll_wait c budget s)))"

subsection \<open>The loop\<close>

text \<open>\<^verbatim>\<open>while (!stop_loop_) loopOnce(max_wait_ms);\<close>\<close>

partial_function (option) loop_while ::
  "'w collaborators \<Rightarrow> u32 \<Rightarrow> step list \<Rightarrow> 'w EventLoopImpl \<Rightarrow>
   (step list \<times> 'w EventLoopImpl) option" where
  "loop_while c max_wait_ms tr s =
     (if \<not> stop_loop s
      then (case loopOnce c max_wait_ms s of
              None \<Rightarrow> None
            | Some (tr', s') \<Rightarrow> loop_while c max_wait_ms (tr @ tr') s')
      else Some (tr, s))"

text \<open>
  \<^verbatim>\<open>for (auto l : listeners_) l->loopStopped();\<close> walks the container itself, not a copy
  of it. In \<open>notify_listeners\<close> the list \<open>rest\<close> is what lies between the iterator and
  the end of the container, and each call is made on the state as the calls before have
  left it. As long as no call changes the container, \<open>rest\<close> is the live remainder. A
  \<^verbatim>\<open>loopStopped\<close> that adds or removes a listener changes the container under the
  iterator: what the source does then is not fixed by the two source files (the
  container is declared in \<^verbatim>\<open>EventLoopImpl.h\<close>, and for a vector the walk is undefined), so
  the walk ends there with an error instead of a state.
\<close>

datatype error = IteratorInvalidated

fun notify_listeners ::
  "'w collaborators \<Rightarrow> nat list \<Rightarrow> step list \<Rightarrow> 'w EventLoopImpl \<Rightarrow>
   error + step list \<times> 'w EventLoopImpl" where
  "notify_listeners c [] tr s = Inr (tr, s)"
| "notify_listeners c (l # rest) tr s =
     (let s' = loopStopped c l s
      in if listeners s' = listeners s
         then notify_listeners c rest (tr @ [LoopStopped l]) s'
         else Inl IteratorInvalidated)"

text \<open>
  \<^verbatim>\<open>loop\<close>: the \<^verbatim>\<open>while\<close> loop, the drain, the walk over the listeners starting at the
  beginning of the container as it is then, \<^verbatim>\<open>listeners_.clear()\<close> and the trace line.
  \<open>None\<close> stands for not returning.
\<close>

definition loop ::
  "'w collaborators \<Rightarrow> u32 \<Rightarrow> 'w EventLoopImpl \<Rightarrow>
   (error + step list \<times> 'w EventLoopImpl) option" where
  "loop c max_wait_ms s =
     (case loop_while c max_wait_ms [] s of
        None \<Rightarrow> None
      | Some (tr, s) \<Rightarrow>
          (case drain c tr s of
             None \<Rightarrow> None
           | Some (tr, s) \<Rightarrow>
               (case notify_listeners c (listeners s) tr s of
                  Inl e \<Rightarrow> Some (Inl e)
                | Inr (tr, s) \<Rightarrow>
                    Some (Inr (tr @ [Trace (KUMA_INFOTRACE ''EventLoop::loop, stopped'')],
                               s\<lparr>listeners := []\<rparr>)))))"

section \<open>Notions used in the statements\<close>

text \<open>A flag is a single bit of a 32-bit mask.\<close>

definition single_bit :: "u32 \<Rightarrow> bool" where
  "single_bit x \<longleftrightarrow> x \<in> set (map (\<lambda>n. push_bit n 1) [0..<32])"

text \<open>The closures among the entries of a queue, front first.\<close>

fun tasks_of :: "LoopCallback list \<Rightarrow> nat list" where
  "tasks_of [] = []"
| "tasks_of (None # q) = tasks_of q"
| "tasks_of (Some k # q) = k # tasks_of q"

text \<open>The listeners notified in a run, in the order of the notifications.\<close>

fun stops :: "step list \<Rightarrow> nat list" where
  "stops [] = []"
| "stops (LoopStopped l # tr) = l # stops tr"
| "stops (_ # tr) = stops tr"

text \<open>
  The interface of the loop lets a task add to the queue (\<^verbatim>\<open>queueInEventLoop\<close>) and nothing
  else: \<open>enqueues_only\<close>. Tasks that do not even do that: \<open>leaves_queue\<close>.
\<close>

definition enqueues_only :: "'w collaborators \<Rightarrow> bool" where
  "enqueues_only c \<longleftrightarrow> (\<forall>k s. \<exists>new. cb_queue (run_cb c k s) = cb_queue s @ new)"

definition leaves_queue :: "'w collaborators \<Rightarrow> bool" where
  "leaves_queue c \<longleftrightarrow> (\<forall>k s. cb_queue (run_cb c k s) = cb_queue s)"

text \<open>
  What a drain that started with the steps \<open>tr\<close> in state \<open>s\<close> and returned \<open>r\<close> has
  done: the queue is empty, the steps added are task runs, and when tasks only enqueue
  the runs start with the tasks that were in the queue, front first.
\<close>

definition drained ::
  "'w collaborators \<Rightarrow> step list \<Rightarrow> 'w EventLoopImpl \<Rightarrow> step list \<times> 'w EventLoopImpl \<Rightarrow> bool" where
  "drained c tr s r \<longleftrightarrow>
     cb_queue (snd r) = [] \<and>
     (\<exists>runs. fst r = tr @ map RunTask runs \<and>
            (enqueues_only c \<longrightarrow> (\<exists>more. runs = tasks_of (cb_queue s) @ more)))"

text \<open>
  A drain described from outside: \<open>after_runs c runs s\<close> is the state in which the drain
  that starts in \<open>s\<close> ends when the tasks it runs are \<open>runs\<close>, in this order. Each task
  must be the first closure in the queue when its turn comes (the empty functions before
  it are dropped), it is taken out and run on the state so reached; after the last one the
  queue must hold no closure, and is left empty. There is no such state when \<open>runs\<close> is
  not what the queue dictates.
\<close>

fun after_runs ::
  "'w collaborators \<Rightarrow> nat list \<Rightarrow> 'w EventLoopImpl \<Rightarrow> 'w EventLoopImpl option" where
  "after_runs c [] s =
     (if tasks_of (cb_queue s) = [] then Some (s\<lparr>cb_queue := []\<rparr>) else None)"
| "after_runs c (k # ks) s =
     (case dropWhile (\<lambda>cb. cb = None) (cb_queue s) of
        [] \<Rightarrow> None
      | cb # q \<Rightarrow> if cb = Some k then after_runs c ks (run_cb c k (s\<lparr>cb_queue := q\<rparr>)) else None)"

text \<open>The smaller of the timer's answer and the caller's maximum, in 32 bits.\<close>

definition wait_budget :: "'w collaborators \<Rightarrow> u32 \<Rightarrow> 'w EventLoopImpl \<Rightarrow> u32" where
  "wait_budget c max_wait_ms s =
     ucast (min (fst (checkExpire c (ucast max_wait_ms) s)) (ucast max_wait_ms :: u64))"

text \<open>
  One iteration described from outside: some tasks \<open>runs\<close> drain the queue, then
  \<^verbatim>\<open>checkExpire\<close> is given the maximum, then the multiplexer waits for \<open>wait_budget\<close>.
\<close>

definition iteration ::
  "'w collaborators \<Rightarrow> u32 \<Rightarrow> 'w EventLoopImpl \<Rightarrow> step list \<times> 'w EventLoopImpl \<Rightarrow> bool" where
  "iteration c max_wait_ms s r \<longleftrightarrow>
     (\<exists>runs s1. after_runs c runs s = Some s1 \<and>
        r = (map RunTask runs @
               [CheckExpire (ucast max_wait_ms), PollWait (wait_budget c max_wait_ms s1)],
             poll_wait c (wait_budget c max_wait_ms s1)
               (snd (checkExpire c (ucast max_wait_ms) s1))))"

text \<open>Iterations one after the other, as long as the stop flag is not set.\<close>

inductive iterations ::
  "'w collaborators \<Rightarrow> u32 \<Rightarrow> 'w EventLoopImpl \<Rightarrow> step list \<Rightarrow> 'w EventLoopImpl \<Rightarrow> bool"
  for c :: "'w collaborators" and max_wait_ms :: u32 where
  stopped: "stop_loop s \<Longrightarrow> iterations c max_wait_ms s [] s"
| again: "\<not> stop_loop s \<Longrightarrow> iteration c max_wait_ms s (tr1, s1) \<Longrightarrow>
          iterations c max_wait_ms s1 tr2 s2 \<Longrightarrow> iterations c max_wait_ms s (tr1 @ tr2) s2"

text \<open>No \<^verbatim>\<open>loopStopped\<close> of the listeners \<open>ls\<close>, called in this order, changes the list.\<close>

fun steady :: "'w collaborators \<Rightarrow> nat list \<Rightarrow> 'w EventLoopImpl \<Rightarrow> bool" where
  "steady c [] s = True"
| "steady c (l # ls) s =
     (listeners (loopStopped c l s) = listeners s \<and> steady c ls (loopStopped c l s))"

text \<open>The state after the notifications of the listeners \<open>ls\<close>, made in this order.\<close>

definition after_stops ::
  "'w collaborators \<Rightarrow> nat list \<Rightarrow> 'w EventLoopImpl \<Rightarrow> 'w EventLoopImpl" where
  "after_stops c ls s = foldl (\<lambda>s l. loopStopped c l s) s ls"

section \<open>Example inputs\<close>

text \<open>An assignment of the macros: the sentinel is \<open>-1\<close>, the three flags are 1, 2 and 4.\<close>

definition example_kmdefs :: kmdefs where
  "example_kmdefs = \<lparr>INVALID_FD = -1, KUMA_EV_READ = 1, KUMA_EV_WRITE = 2, KUMA_EV_ERROR = 4\<rparr>"

text \<open>A kernel that refuses every \<^verbatim>\<open>epoll_ctl\<close>, and one that accepts every one.\<close>

definition ctl_fails :: epoll_ctl_fn where
  "ctl_fails epfd op fd evt = -1"

definition ctl_succeeds :: epoll_ctl_fn where
  "ctl_succeeds epfd op fd evt = 0"

text \<open>
  A table of three slots: descriptor 0 registered for reading, slot 1 unused, descriptor
  2 registered for reading and errors.
\<close>

definition example_EPoll :: "nat EPoll" where
  "example_EPoll =
     \<lparr>epoll_fd = 3,
      poll_items = [\<lparr>item_fd = 0, item_events = 1, item_cb = Some 5\<rparr>,
                    \<lparr>item_fd = -1, item_events = 0, item_cb = None\<rparr>,
                    \<lparr>item_fd = 2, item_events = 5, item_cb = Some 6\<rparr>],
      kmtrace = [], user = 0\<rparr>"

text \<open>
  Three outcomes of \<^verbatim>\<open>epoll_wait\<close>: interrupted by a signal, failed with \<^verbatim>\<open>EBADF\<close>, and two
  descriptors ready (2 readable, 0 hung up).
\<close>

definition wait_interrupted :: epoll_wait_fn where
  "wait_interrupted epfd maxevents timeout =
     \<lparr>wait_ret = -1, wait_errno = EINTR, wait_events = []\<rparr>"

definition wait_broken :: epoll_wait_fn where
  "wait_broken epfd maxevents timeout = \<lparr>wait_ret = -1, wait_errno = 9, wait_events = []\<rparr>"

definition wait_ready :: epoll_wait_fn where
  "wait_ready epfd maxevents timeout =
     \<lparr>wait_ret = 2, wait_errno = 0,
      wait_events = [\<lparr>ev_events = 1, ev_data_ptr = 2\<rparr>, \<lparr>ev_events = 16, ev_data_ptr = 0\<rparr>]\<rparr>"

text \<open>Callbacks that count their calls.\<close>

definition count_call :: "nat \<Rightarrow> u32 \<Rightarrow> nat EPoll \<Rightarrow> nat EPoll" where
  "count_call k ev s = s\<lparr>user := user s + 1\<rparr>"

text \<open>
  Collaborators of the loop. With \<open>quiet_tasks\<close>, task 0 stops the loop and any other
  task \<open>k\<close> adds \<open>k\<close> to a counter; the timer cuts the budget to 250 ms; a callback run
  by \<^verbatim>\<open>wait\<close> queues task 9; a listener adds 100 to the counter.
\<close>

definition quiet_tasks :: "nat collaborators" where
  "quiet_tasks =
     \<lparr>run_cb = (\<lambda>k s. if k = 0 then s\<lparr>stop_loop := True\<rparr> else s\<lparr>others := others s + k\<rparr>),
      checkExpire = (\<lambda>wait_ms s. (min wait_ms 250, s)),
      poll_wait = (\<lambda>wait_ms s. s\<lparr>cb_queue := enqueue (Some 9) (cb_queue s)\<rparr>),
      loopStopped = (\<lambda>l s. s\<lparr>others := others s + 100\<rparr>)\<rparr>"

text \<open>
  With \<open>chaining_tasks\<close>, task 0 stops the loop and any other task \<open>k\<close> queues task
  \<open>k - 1\<close>; the timer hands back more than it was given.
\<close>

definition chaining_tasks :: "nat collaborators" where
  "chaining_tasks =
     \<lparr>run_cb = (\<lambda>k s. if k = 0 then s\<lparr>stop_loop := True\<rparr>
                       else s\<lparr>cb_queue := enqueue (Some (k - 1)) (cb_queue s)\<rparr>),
      checkExpire = (\<lambda>wait_ms s. (wait_ms + 5000, s)),
      poll_wait = (\<lambda>wait_ms s. s),
      loopStopped = (\<lambda>l s. s\<lparr>others := others s + 100\<rparr>)\<rparr>"

text \<open>
  With \<open>requeueing_tasks\<close> every task queues itself again, through \<^verbatim>\<open>queueInEventLoop\<close>.
  With \<open>removing_listeners\<close> the notification of a listener removes the listener after
  it.
\<close>

definition requeueing_tasks :: "nat collaborators" where
  "requeueing_tasks =
     \<lparr>run_cb = (\<lambda>k s. snd (queueInEventLoop (Some k) s)),
      checkExpire = (\<lambda>wait_ms s. (wait_ms, s)),
      poll_wait = (\<lambda>wait_ms s. s),
      loopStopped = (\<lambda>l s. s)\<rparr>"

definition removing_listeners :: "nat collaborators" where
  "removing_listeners =
     \<lparr>run_cb = (\<lambda>k s. s\<lparr>stop_loop := True\<rparr>),
      checkExpire = (\<lambda>wait_ms s. (wait_ms, s)),
      poll_wait = (\<lambda>wait_ms s. s),
      loopStopped = (\<lambda>l s. removeListener (Suc l) s)\<rparr>"

text \<open>
  Loop states: one with four queue entries (the second an empty function) and two
  listeners; one with a single task; a stopped one with two listeners; and one where
  \<^verbatim>\<open>addListener\<close> was called twice with listener 7 and task 0, which stops the loop, is
  queued.
\<close>

definition example_loop :: "nat EventLoopImpl" where
  "example_loop = \<lparr>cb_queue = [Some 3, None, Some 0, Some 4], stop_loop = False,
                   listeners = [7, 8], others = 0\<rparr>"

definition chained_loop :: "nat EventLoopImpl" where
  "chained_loop = \<lparr>cb_queue = [Some 1], stop_loop = False, listeners = [], others = 0\<rparr>"

definition stopped_loop :: "nat EventLoopImpl" where
  "stopped_loop = \<lparr>cb_queue = [], stop_loop = True, listeners = [7, 8], others = 0\<rparr>"

definition twice_added_loop :: "nat EventLoopImpl" where
  "twice_added_loop =
     addListener 7 (addListener 7
       \<lparr>cb_queue = [Some 0], stop_loop = False, listeners = [], others = 0\<rparr>)"

section \<open>Event translation: C7 and C10\<close>

lemmas epoll_bits = EPOLLET_def EPOLLIN_def EPOLLOUT_def EPOLLERR_def EPOLLHUP_def

lemma get_events_has_EPOLLET: "get_events d m AND EPOLLET = EPOLLET"
  by (simp add: get_events_def Let_def epoll_bits)

lemma get_events_ERROR:
  "m AND KUMA_EV_ERROR d \<noteq> 0 \<Longrightarrow>
   get_events d m AND EPOLLERR = EPOLLERR \<and> get_events d m AND EPOLLHUP = EPOLLHUP"
  by (simp add: get_events_def Let_def epoll_bits)

lemma get_kuma_events_ERROR:
  assumes "ev AND EPOLLERR \<noteq> 0 \<or> ev AND EPOLLHUP \<noteq> 0"
  shows "get_kuma_events d ev AND KUMA_EV_ERROR d = KUMA_EV_ERROR d"
proof -
  have "ev AND (EPOLLERR OR EPOLLHUP) = (ev AND EPOLLERR) OR (ev AND EPOLLHUP)"
    by (simp add: bit.conj_disj_distrib)
  with assms have "ev AND (EPOLLERR OR EPOLLHUP) \<noteq> 0"
    by (auto simp: or_eq_0_iff)
  then show ?thesis
    by (simp add: get_kuma_events_def Let_def)
qed

lemma get_events_eq:
  "get_events d m =
     EPOLLET OR (if m AND KUMA_EV_READ d \<noteq> 0 then EPOLLIN else 0)
             OR (if m AND KUMA_EV_WRITE d \<noteq> 0 then EPOLLOUT else 0)
             OR (if m AND KUMA_EV_ERROR d \<noteq> 0 then EPOLLERR OR EPOLLHUP else 0)"
  by (simp add: get_events_def Let_def or.assoc)

lemma either_ERR_HUP:
  "ev AND (EPOLLERR OR EPOLLHUP) \<noteq> 0 \<longleftrightarrow> ev AND EPOLLERR \<noteq> 0 \<or> ev AND EPOLLHUP \<noteq> 0"
  by (simp add: bit.conj_disj_distrib or_eq_0_iff)

lemma get_kuma_events_eq:
  "get_kuma_events d ev =
     (if ev AND EPOLLIN \<noteq> 0 then KUMA_EV_READ d else 0)
       OR (if ev AND EPOLLOUT \<noteq> 0 then KUMA_EV_WRITE d else 0)
       OR (if ev AND EPOLLERR \<noteq> 0 \<or> ev AND EPOLLHUP \<noteq> 0 then KUMA_EV_ERROR d else 0)"
  unfolding either_ERR_HUP [symmetric]
  by (simp add: get_kuma_events_def Let_def or.assoc)

lemma get_events_ERR_HUP:
  "get_events d m AND (EPOLLERR OR EPOLLHUP)
     = (if m AND KUMA_EV_ERROR d \<noteq> 0 then EPOLLERR OR EPOLLHUP else 0)"
  by (simp add: get_events_def Let_def epoll_bits)

lemma get_events_no_ERROR:
  "m AND KUMA_EV_ERROR d = 0 \<Longrightarrow>
   get_events d m AND EPOLLERR = 0 \<and> get_events d m AND EPOLLHUP = 0"
  by (simp add: get_events_def Let_def epoll_bits)

lemma get_kuma_events_no_ERROR:
  assumes "ev AND EPOLLERR = 0" and "ev AND EPOLLHUP = 0"
      and "KUMA_EV_READ d AND KUMA_EV_ERROR d = 0" and "KUMA_EV_WRITE d AND KUMA_EV_ERROR d = 0"
  shows "get_kuma_events d ev AND KUMA_EV_ERROR d = 0"
  using assms
  by (simp add: get_kuma_events_eq bit.conj_disj_distrib2)

text \<open>
  C7. \<^verbatim>\<open>get_events\<close> is the edge-trigger flag, plus \<^verbatim>\<open>EPOLLIN\<close> exactly when the mask
  has the portable read flag, \<^verbatim>\<open>EPOLLOUT\<close> exactly when it has the write flag, and both
  \<^verbatim>\<open>EPOLLERR\<close> and \<^verbatim>\<open>EPOLLHUP\<close> exactly when it has the error flag; so the edge-trigger
  flag is set for every mask, and alone for the empty one. \<^verbatim>\<open>get_kuma_events\<close> is the read
  flag exactly when \<^verbatim>\<open>EPOLLIN\<close> is set, the write flag exactly when \<^verbatim>\<open>EPOLLOUT\<close> is set, and
  the error flag exactly when \<^verbatim>\<open>EPOLLERR\<close> or \<^verbatim>\<open>EPOLLHUP\<close> is set; when neither is set (and
  the error flag shares no bit with the other two) no bit of the error flag is reported.
\<close>

theorem get_events_edge_triggered_error_both_ways:
  "get_events d m =
     EPOLLET OR (if m AND KUMA_EV_READ d \<noteq> 0 then EPOLLIN else 0)
             OR (if m AND KUMA_EV_WRITE d \<noteq> 0 then EPOLLOUT else 0)
             OR (if m AND KUMA_EV_ERROR d \<noteq> 0 then EPOLLERR OR EPOLLHUP else 0) \<and>
   get_events d m AND EPOLLET = EPOLLET \<and>
   get_events d 0 = EPOLLET \<and>
   get_events d m AND (EPOLLERR OR EPOLLHUP)
     = (if m AND KUMA_EV_ERROR d \<noteq> 0 then EPOLLERR OR EPOLLHUP else 0) \<and>
   (m AND KUMA_EV_ERROR d \<noteq> 0 \<longrightarrow>
      get_events d m AND EPOLLERR = EPOLLERR \<and> get_events d m AND EPOLLHUP = EPOLLHUP) \<and>
   (m AND KUMA_EV_ERROR d = 0 \<longrightarrow>
      get_events d m AND EPOLLERR = 0 \<and> get_events d m AND EPOLLHUP = 0) \<and>
   get_kuma_events d ev =
     (if ev AND EPOLLIN \<noteq> 0 then KUMA_EV_READ d else 0)
       OR (if ev AND EPOLLOUT \<noteq> 0 then KUMA_EV_WRITE d else 0)
       OR (if ev AND EPOLLERR \<noteq> 0 \<or> ev AND EPOLLHUP \<noteq> 0 then KUMA_EV_ERROR d else 0) \<and>
   (ev AND EPOLLERR \<noteq> 0 \<or> ev AND EPOLLHUP \<noteq> 0 \<longrightarrow>
      get_kuma_events d ev AND KUMA_EV_ERROR d = KUMA_EV_ERROR d) \<and>
   (ev AND EPOLLERR = 0 \<and> ev AND EPOLLHUP = 0 \<and>
    KUMA_EV_READ d AND KUMA_EV_ERROR d = 0 \<and> KUMA_EV_WRITE d AND KUMA_EV_ERROR d = 0 \<longrightarrow>
      get_kuma_events d ev AND KUMA_EV_ERROR d = 0)"
proof -
  have z: "get_events d 0 = EPOLLET" by (simp add: get_events_def)
  from get_events_eq [of d m] get_events_has_EPOLLET [of d m] z get_events_ERR_HUP [of d m]
       get_events_ERROR [of m d] get_events_no_ERROR [of m d] get_kuma_events_eq [of d ev]
       get_kuma_events_ERROR [of ev d] get_kuma_events_no_ERROR [of ev d]
  show ?thesis by blast
qed

theorem get_events_edge_triggered_error_both_ways_witness:
  "get_events example_kmdefs 4 = 0x80000018 \<and>
   get_events example_kmdefs 4 AND EPOLLERR = EPOLLERR \<and>
   get_events example_kmdefs 4 AND EPOLLHUP = EPOLLHUP \<and>
   get_events example_kmdefs 1 = 0x80000001 \<and>
   get_events example_kmdefs 1 AND EPOLLERR = 0 \<and>
   get_events example_kmdefs 1 AND EPOLLHUP = 0 \<and>
   get_kuma_events example_kmdefs EPOLLERR = 4 \<and>
   get_kuma_events example_kmdefs EPOLLHUP = 4 \<and>
   get_kuma_events example_kmdefs EPOLLIN = 1 \<and>
   get_kuma_events example_kmdefs EPOLLIN AND 4 = 0"
  using get_events_edge_triggered_error_both_ways
          [where d = example_kmdefs and m = 4 and ev = EPOLLERR]
        get_events_edge_triggered_error_both_ways
          [where d = example_kmdefs and m = 4 and ev = EPOLLHUP]
        get_events_edge_triggered_error_both_ways
          [where d = example_kmdefs and m = 1 and ev = EPOLLIN]
  by (simp add: example_kmdefs_def epoll_bits)

lemma and_exp_cases: "(m::u32) AND 2 ^ n = 0 \<or> m AND 2 ^ n = 2 ^ n"
  by (cases "bit m n") (auto intro!: bit_eqI simp: bit_simps and_exp_eq_0_iff_not_bit)

lemma single_bit_and:
  assumes "single_bit r"
  shows "m AND r = 0 \<or> m AND r = r"
proof -
  from assms obtain n where "r = 2 ^ n"
    by (auto simp: single_bit_def push_bit_eq_mult)
  then show ?thesis using and_exp_cases [of m n] by simp
qed

lemma flag_of_single_bit:
  "single_bit r \<Longrightarrow> (if m AND r \<noteq> 0 then r else 0) = m AND r"
  using single_bit_and [of r m] by auto

lemma get_kuma_events_get_events:
  "get_kuma_events d (get_events d m) =
     (if m AND KUMA_EV_READ d \<noteq> 0 then KUMA_EV_READ d else 0) OR
     (if m AND KUMA_EV_WRITE d \<noteq> 0 then KUMA_EV_WRITE d else 0) OR
     (if m AND KUMA_EV_ERROR d \<noteq> 0 then KUMA_EV_ERROR d else 0)"
  by (cases "m AND KUMA_EV_READ d = 0"; cases "m AND KUMA_EV_WRITE d = 0";
      cases "m AND KUMA_EV_ERROR d = 0")
     (simp_all add: get_events_def get_kuma_events_def epoll_bits or.assoc)

lemma mask_split:
  fixes m :: u32
  assumes "m AND NOT (a OR b OR c) = 0"
  shows "m = (m AND a) OR (m AND b) OR (m AND c)"
proof -
  have "m = (m AND x) OR (m AND NOT x)" for x
    by (rule bit_eqI) (auto simp: bit_simps)
  from this [of "a OR b OR c"] assms have "m = m AND (a OR b OR c)" by simp
  then show ?thesis by (simp add: bit.conj_disj_distrib)
qed

lemma get_kuma_events_drops_EPOLLET:
  "get_kuma_events d (ev OR EPOLLET) = get_kuma_events d ev"
proof -
  have "(ev OR EPOLLET) AND EPOLLIN = ev AND EPOLLIN"
       "(ev OR EPOLLET) AND EPOLLOUT = ev AND EPOLLOUT"
       "(ev OR EPOLLET) AND (EPOLLERR OR EPOLLHUP) = ev AND (EPOLLERR OR EPOLLHUP)"
    by (simp_all add: bit.conj_disj_distrib2 epoll_bits)
  then show ?thesis by (simp add: get_kuma_events_def)
qed

text \<open>
  C10. When each of the three portable flags is a single bit, a mask made of these flags
  only comes back unchanged from \<^verbatim>\<open>get_events\<close> followed by \<^verbatim>\<open>get_kuma_events\<close>, and the
  edge-trigger flag makes no difference to \<^verbatim>\<open>get_kuma_events\<close>.
\<close>

theorem get_kuma_events_get_events_round_trip:
  assumes "single_bit (KUMA_EV_READ d)" and "single_bit (KUMA_EV_WRITE d)"
      and "single_bit (KUMA_EV_ERROR d)"
      and "m AND NOT (KUMA_EV_READ d OR KUMA_EV_WRITE d OR KUMA_EV_ERROR d) = 0"
  shows "get_kuma_events d (get_events d m) = m \<and>
         get_kuma_events d (ev OR EPOLLET) = get_kuma_events d ev"
  using mask_split [OF assms(4)] assms(1-3)
  by (simp add: get_kuma_events_get_events flag_of_single_bit get_kuma_events_drops_EPOLLET)

theorem get_kuma_events_get_events_round_trip_witness:
  "single_bit (KUMA_EV_READ example_kmdefs) \<and> single_bit (KUMA_EV_WRITE example_kmdefs) \<and>
   single_bit (KUMA_EV_ERROR example_kmdefs) \<and>
   get_events example_kmdefs 5 = 0x80000019 \<and>
   get_kuma_events example_kmdefs (get_events example_kmdefs 5) = 5"
proof -
  have b: "single_bit 1" "single_bit 2" "single_bit 4"
    by code_simp+
  have m: "(5::u32) AND NOT (1 OR 2 OR 4) = 0"
    by simp
  have e: "get_events example_kmdefs 5 = 0x80000019"
    by (simp add: get_events_def example_kmdefs_def epoll_bits)
  from get_kuma_events_get_events_round_trip [where d = example_kmdefs and m = 5] b m e
  show ?thesis
    by (simp add: example_kmdefs_def)
qed

section \<open>Registration: C1, C3, C6 and C8\<close>

text \<open>
  What \<^verbatim>\<open>registerFd\<close> leaves behind when the kernel refuses the call: the error kind is
  \<^verbatim>\<open>FAILED\<close>, and the slot already holds the new descriptor, mask and callback.
\<close>

lemma registerFd_refused:
  assumes "0 \<le> fd"
      and "\<forall>op evt. epoll_ctl (epoll_fd s) op fd evt < 0"
  shows "fst (registerFd d epoll_ctl fd events cb s) = FAILED \<and>
         poll_items (snd (registerFd d epoll_ctl fd events cb s)) ! nat fd
           = \<lparr>item_fd = fd, item_events = events, item_cb = cb\<rparr>"
  using assms
  by (auto simp: registerFd_def Let_def ktrace_def resizePollItems_def nth_append)

text \<open>
  C1. Descriptor 0 is registered for reading with callback 5. A second \<^verbatim>\<open>registerFd\<close>
  for it, with mask 2 and callback 9, is refused by the kernel: the call returns
  \<^verbatim>\<open>FAILED\<close>, and slot 0 holds mask 2 and callback 9. The same on the unused slot 1: after
  the refused call its descriptor field is 1, not the sentinel.
\<close>

theorem registerFd_refused_slot_overwritten:
  "fst (registerFd example_kmdefs ctl_fails 0 2 (Some 9) example_EPoll) = FAILED \<and>
   poll_items example_EPoll ! 0 = \<lparr>item_fd = 0, item_events = 1, item_cb = Some 5\<rparr> \<and>
   poll_items (snd (registerFd example_kmdefs ctl_fails 0 2 (Some 9) example_EPoll)) ! 0
     = \<lparr>item_fd = 0, item_events = 2, item_cb = Some 9\<rparr> \<and>
   fst (registerFd example_kmdefs ctl_fails 1 2 (Some 9) example_EPoll) = FAILED \<and>
   poll_items example_EPoll ! 1 = \<lparr>item_fd = -1, item_events = 0, item_cb = None\<rparr> \<and>
   poll_items (snd (registerFd example_kmdefs ctl_fails 1 2 (Some 9) example_EPoll)) ! 1
     = \<lparr>item_fd = 1, item_events = 2, item_cb = Some 9\<rparr>"
  by (simp add: registerFd_def Let_def ktrace_def resizePollItems_def example_EPoll_def
        example_kmdefs_def ctl_fails_def)

text \<open>
  C3. \<^verbatim>\<open>unregisterFd\<close> with a descriptor below 0 or above the last index returns
  \<^verbatim>\<open>INVALID_PARAM\<close> and leaves the table as it was. Otherwise it returns \<^verbatim>\<open>NOERR\<close> whatever
  the kernel answers: for the last index the table loses its last slot, for a lower one
  the length stays, the slot's descriptor field is the sentinel and the other slots are
  untouched.
\<close>

theorem unregisterFd_cases:
  "(fd < 0 \<or> fd > int (length (poll_items s)) - 1 \<longrightarrow>
      fst (unregisterFd d epoll_ctl fd s) = INVALID_PARAM \<and>
      poll_items (snd (unregisterFd d epoll_ctl fd s)) = poll_items s) \<and>
   (0 \<le> fd \<and> fd = int (length (poll_items s)) - 1 \<longrightarrow>
      fst (unregisterFd d epoll_ctl fd s) = NOERR \<and>
      Suc (length (poll_items (snd (unregisterFd d epoll_ctl fd s)))) = length (poll_items s) \<and>
      poll_items (snd (unregisterFd d epoll_ctl fd s)) = butlast (poll_items s)) \<and>
   (0 \<le> fd \<and> fd < int (length (poll_items s)) - 1 \<longrightarrow>
      fst (unregisterFd d epoll_ctl fd s) = NOERR \<and>
      length (poll_items (snd (unregisterFd d epoll_ctl fd s))) = length (poll_items s) \<and>
      item_fd (poll_items (snd (unregisterFd d epoll_ctl fd s)) ! nat fd) = INVALID_FD d \<and>
      (\<forall>i < length (poll_items s). i \<noteq> nat fd \<longrightarrow>
         poll_items (snd (unregisterFd d epoll_ctl fd s)) ! i = poll_items s ! i))"
  by (auto simp: unregisterFd_def Let_def ktrace_def reset_def)

theorem unregisterFd_cases_witness:
  "fst (unregisterFd example_kmdefs ctl_fails (-1) example_EPoll) = INVALID_PARAM \<and>
   fst (unregisterFd example_kmdefs ctl_fails 3 example_EPoll) = INVALID_PARAM \<and>
   poll_items (snd (unregisterFd example_kmdefs ctl_fails 3 example_EPoll))
     = poll_items example_EPoll \<and>
   fst (unregisterFd example_kmdefs ctl_fails 2 example_EPoll) = NOERR \<and>
   length (poll_items (snd (unregisterFd example_kmdefs ctl_fails 2 example_EPoll))) = 2 \<and>
   fst (unregisterFd example_kmdefs ctl_fails 0 example_EPoll) = NOERR \<and>
   length (poll_items (snd (unregisterFd example_kmdefs ctl_fails 0 example_EPoll))) = 3 \<and>
   item_fd (poll_items (snd (unregisterFd example_kmdefs ctl_fails 0 example_EPoll)) ! 0) = -1"
  using unregisterFd_cases [where fd = "-1" and s = example_EPoll and d = example_kmdefs
          and epoll_ctl = ctl_fails]
        unregisterFd_cases [where fd = 3 and s = example_EPoll and d = example_kmdefs
          and epoll_ctl = ctl_fails]
        unregisterFd_cases [where fd = 2 and s = example_EPoll and d = example_kmdefs
          and epoll_ctl = ctl_fails]
        unregisterFd_cases [where fd = 0 and s = example_EPoll and d = example_kmdefs
          and epoll_ctl = ctl_fails]
  by (simp add: example_EPoll_def example_kmdefs_def)

text \<open>
  C6. \<^verbatim>\<open>updateFd\<close> on a descriptor in range whose slot is active: when the kernel refuses
  the modification the call returns \<^verbatim>\<open>FAILED\<close> and the table, so the stored mask, is what
  it was; when the kernel accepts it the call returns \<^verbatim>\<open>NOERR\<close> and the slot's mask is the
  new one, nothing else in the table having changed.
\<close>

theorem updateFd_active_slot:
  assumes "0 \<le> fd" and "fd < int (length (poll_items s))"
      and "item_fd (poll_items s ! nat fd) \<noteq> INVALID_FD d"
  shows "(epoll_ctl (epoll_fd s) EPOLL_CTL_MOD fd
            (Some \<lparr>ev_events = get_events d events, ev_data_ptr = fd\<rparr>) < 0 \<longrightarrow>
            fst (updateFd d epoll_ctl fd events s) = FAILED \<and>
            poll_items (snd (updateFd d epoll_ctl fd events s)) = poll_items s \<and>
            item_events (poll_items (snd (updateFd d epoll_ctl fd events s)) ! nat fd)
              = item_events (poll_items s ! nat fd)) \<and>
         (\<not> epoll_ctl (epoll_fd s) EPOLL_CTL_MOD fd
            (Some \<lparr>ev_events = get_events d events, ev_data_ptr = fd\<rparr>) < 0 \<longrightarrow>
            fst (updateFd d epoll_ctl fd events s) = NOERR \<and>
            item_events (poll_items (snd (updateFd d epoll_ctl fd events s)) ! nat fd) = events \<and>
            poll_items (snd (updateFd d epoll_ctl fd events s))
              = (poll_items s)[nat fd := (poll_items s ! nat fd)\<lparr>item_events := events\<rparr>])"
  using assms by (auto simp: updateFd_def Let_def ktrace_def)

theorem updateFd_active_slot_witness:
  "fst (updateFd example_kmdefs ctl_fails 2 3 example_EPoll) = FAILED \<and>
   item_events (poll_items (snd (updateFd example_kmdefs ctl_fails 2 3 example_EPoll)) ! 2) = 5 \<and>
   fst (updateFd example_kmdefs ctl_succeeds 2 3 example_EPoll) = NOERR \<and>
   item_events (poll_items (snd (updateFd example_kmdefs ctl_succeeds 2 3 example_EPoll)) ! 2) = 3"
  using updateFd_active_slot [where fd = 2 and s = example_EPoll and d = example_kmdefs
          and epoll_ctl = ctl_fails and events = 3]
        updateFd_active_slot [where fd = 2 and s = example_EPoll and d = example_kmdefs
          and epoll_ctl = ctl_succeeds and events = 3]
  by (simp add: example_EPoll_def example_kmdefs_def ctl_fails_def ctl_succeeds_def)

text \<open>
  The three tests of \<^verbatim>\<open>updateFd\<close> share one \<^verbatim>\<open>return\<close>: a negative descriptor or one past
  the table gets \<^verbatim>\<open>FAILED\<close>, and the state is untouched.
\<close>

lemma updateFd_out_of_range:
  "fd < 0 \<or> fd \<ge> int (length (poll_items s)) \<Longrightarrow>
   updateFd d epoll_ctl fd events s = (FAILED, s)"
  by (auto simp: updateFd_def)

text \<open>
  C8. On the table of three slots, \<^verbatim>\<open>updateFd\<close> with descriptor \<open>-1\<close> and with
  descriptor 3 returns \<^verbatim>\<open>FAILED\<close>, which is not \<^verbatim>\<open>INVALID_PARAM\<close>.
\<close>

theorem updateFd_bad_descriptor_FAILED:
  "updateFd example_kmdefs ctl_succeeds (-1) 1 example_EPoll = (FAILED, example_EPoll) \<and>
   updateFd example_kmdefs ctl_succeeds 3 1 example_EPoll = (FAILED, example_EPoll) \<and>
   FAILED \<noteq> INVALID_PARAM"
  by (simp add: updateFd_def example_EPoll_def)

section \<open>Waiting: C2\<close>

text \<open>
  C2. \<^verbatim>\<open>wait\<close> returns \<^verbatim>\<open>NOERR\<close> for every waiting time and every outcome of
  \<^verbatim>\<open>epoll_wait\<close>. When the kernel's return value is negative no callback is called and the
  table and the callbacks' data are untouched; with \<^verbatim>\<open>EINTR\<close> the log gets the
  information line only, with any other \<^verbatim>\<open>errno\<close> an error line before it.
\<close>

theorem wait_returns_NOERR:
  "fst (wait d epoll_wait invoke wait_ms s) = NOERR \<and>
   (wait_ret (epoll_wait (epoll_fd s) MAX_EVENT_NUM wait_ms) < 0 \<longrightarrow>
      fst (snd (wait d epoll_wait invoke wait_ms s)) = [] \<and>
      poll_items (snd (snd (wait d epoll_wait invoke wait_ms s))) = poll_items s \<and>
      user (snd (snd (wait d epoll_wait invoke wait_ms s))) = user s \<and>
      (wait_errno (epoll_wait (epoll_fd s) MAX_EVENT_NUM wait_ms) = EINTR \<longrightarrow>
         kmtrace (snd (snd (wait d epoll_wait invoke wait_ms s)))
           = kmtrace s @ [KUMA_INFOTRACE ''EPoll::wait'']) \<and>
      (wait_errno (epoll_wait (epoll_fd s) MAX_EVENT_NUM wait_ms) \<noteq> EINTR \<longrightarrow>
         kmtrace (snd (snd (wait d epoll_wait invoke wait_ms s)))
           = kmtrace s @ [KUMA_ERRTRACE ''EPoll::wait'', KUMA_INFOTRACE ''EPoll::wait'']))"
  by (simp add: wait_def Let_def ktrace_def split: prod.split)

theorem wait_returns_NOERR_witness:
  "wait example_kmdefs wait_interrupted count_call 1000 example_EPoll
     = (NOERR, [], example_EPoll\<lparr>kmtrace := [KUMA_INFOTRACE ''EPoll::wait'']\<rparr>) \<and>
   wait example_kmdefs wait_broken count_call 1000 example_EPoll
     = (NOERR, [], example_EPoll\<lparr>kmtrace :=
          [KUMA_ERRTRACE ''EPoll::wait'', KUMA_INFOTRACE ''EPoll::wait'']\<rparr>) \<and>
   fst (wait example_kmdefs wait_ready count_call 1000 example_EPoll) = NOERR \<and>
   fst (snd (wait example_kmdefs wait_ready count_call 1000 example_EPoll)) = [(6, 1), (5, 4)]"
  using wait_returns_NOERR [where d = example_kmdefs and epoll_wait = wait_interrupted
          and invoke = count_call and wait_ms = 1000 and s = example_EPoll]
        wait_returns_NOERR [where d = example_kmdefs and epoll_wait = wait_broken
          and invoke = count_call and wait_ms = 1000 and s = example_EPoll]
        wait_returns_NOERR [where d = example_kmdefs and epoll_wait = wait_ready
          and invoke = count_call and wait_ms = 1000 and s = example_EPoll]
  by (simp add: wait_def Let_def ktrace_def wait_interrupted_def wait_broken_def wait_ready_def
        example_EPoll_def example_kmdefs_def count_call_def EINTR_def get_kuma_events_def
        EPOLLIN_def EPOLLOUT_def EPOLLERR_def EPOLLHUP_def)

section \<open>The drain and one iteration: C4\<close>

subsection \<open>What a drain that returns has done\<close>

lemma tasks_of_append: "tasks_of (q @ q') = tasks_of q @ tasks_of q'"
  by (induction q rule: tasks_of.induct) auto

lemma stops_append: "stops (tr @ tr') = stops tr @ stops tr'"
  by (induction tr rule: stops.induct) auto

lemma stops_RunTask: "stops (map RunTask runs) = []"
  by (induction runs) auto

lemma stops_LoopStopped: "stops (map LoopStopped ls) = ls"
  by (induction ls) auto

lemma count_list_distinct: "distinct xs \<Longrightarrow> x \<in> set xs \<Longrightarrow> count_list xs x = 1"
  by (induction xs) auto

lemma enqueues_onlyD:
  assumes "enqueues_only c"
  shows "\<exists>new. cb_queue (run_cb c k (s\<lparr>cb_queue := q\<rparr>)) = q @ new"
proof -
  from assms
  have "\<exists>new. cb_queue (run_cb c k (s\<lparr>cb_queue := q\<rparr>)) = cb_queue (s\<lparr>cb_queue := q\<rparr>) @ new"
    unfolding enqueues_only_def by blast
  then show ?thesis by simp
qed

lemma leaves_queue_enqueues_only: "leaves_queue c \<Longrightarrow> enqueues_only c"
  by (simp add: leaves_queue_def enqueues_only_def)

lemma drain_Some:
  assumes "drain c tr s = Some r"
  shows "drained c tr s r"
proof (rule drain.raw_induct [where P = drained, OF _ assms])
  fix f and c :: "'w collaborators" and tr s r
  assume IH: "\<And>c tr s y. f c tr s = Some y \<Longrightarrow> drained c tr s y"
    and body: "(case dequeue (cb_queue s) of
                  None \<Rightarrow> Some (tr, s)
                | Some (None, q) \<Rightarrow> f c tr (s\<lparr>cb_queue := q\<rparr>)
                | Some (Some k, q) \<Rightarrow>
                    f c (tr @ [RunTask k]) (run_cb c k (s\<lparr>cb_queue := q\<rparr>))) = Some r"
  show "drained c tr s r"
  proof (cases "cb_queue s")
    case Nil
    with body show ?thesis by (auto simp: drained_def)
  next
    case (Cons cb q)
    show ?thesis
    proof (cases cb)
      case None
      with Cons body have "f c tr (s\<lparr>cb_queue := q\<rparr>) = Some r" by simp
      from IH [OF this] Cons None show ?thesis by (simp add: drained_def)
    next
      case (Some k)
      let ?s = "run_cb c k (s\<lparr>cb_queue := q\<rparr>)"
      from Some Cons body have "f c (tr @ [RunTask k]) ?s = Some r" by simp
      from IH [OF this] obtain runs where
        e: "cb_queue (snd r) = []" and t: "fst r = (tr @ [RunTask k]) @ map RunTask runs"
        and p: "enqueues_only c \<longrightarrow> (\<exists>more. runs = tasks_of (cb_queue ?s) @ more)"
        unfolding drained_def by blast
      have "enqueues_only c \<longrightarrow> (\<exists>more. k # runs = tasks_of (cb_queue s) @ more)"
      proof
        assume eo: "enqueues_only c"
        from enqueues_onlyD [OF this] obtain new where "cb_queue ?s = q @ new" by blast
        with p eo Cons Some show "\<exists>more. k # runs = tasks_of (cb_queue s) @ more"
          by (auto simp: tasks_of_append)
      qed
      with e t show ?thesis unfolding drained_def
        by (intro conjI exI [of _ "k # runs"]) auto
    qed
  qed
qed

lemma drain_total:
  assumes "leaves_queue c"
  shows "\<exists>s'. drain c tr s = Some (tr @ map RunTask (tasks_of (cb_queue s)), s')"
proof (induction "cb_queue s" arbitrary: s tr)
  case Nil
  then show ?case by (subst drain.simps) (simp add: Nil [symmetric])
next
  case (Cons cb q)
  show ?case
  proof (cases cb)
    case None
    have "q = cb_queue (s\<lparr>cb_queue := q\<rparr>)" by simp
    from Cons(1) [OF this, of tr] Cons(2) None show ?thesis
      by (subst drain.simps) (simp add: Cons(2) [symmetric])
  next
    case (Some k)
    have eq: "cb_queue (run_cb c k (s\<lparr>cb_queue := q\<rparr>)) = q"
      using assms by (simp add: leaves_queue_def)
    from Cons(1) [OF eq [symmetric], of "tr @ [RunTask k]"] Cons(2) Some show ?thesis
      by (subst drain.simps) (simp add: Cons(2) [symmetric] eq)
  qed
qed

lemma unat_ucast_up: "unat (ucast (m :: u32) :: u64) = unat m"
proof -
  have "unat m < 2 ^ 32" using unsigned_less [of m] by simp
  then have "unat m < 2 ^ 64" by simp
  then show ?thesis by (simp add: unsigned_ucast_eq take_bit_nat_eq_self)
qed

lemma ucast_down_le:
  fixes x :: u64 and m :: u32
  assumes "x \<le> ucast m"
  shows "(ucast x :: u32) \<le> m" and "(ucast (ucast x :: u32) :: u64) = x"
proof -
  have m: "unat m < 2 ^ 32" using unsigned_less [of m] by simp
  from assms have le: "unat x \<le> unat m" by (simp add: word_le_nat_alt unat_ucast_up)
  with m have x: "unat x < 2 ^ 32" by simp
  have u: "unat (ucast x :: u32) = unat x"
    using x by (simp add: unsigned_ucast_eq take_bit_nat_eq_self)
  show "(ucast x :: u32) \<le> m" using le u by (simp add: word_le_nat_alt)
  have "unat (ucast (ucast x :: u32) :: u64) = unat x"
    using u by (simp add: unat_ucast_up)
  then show "(ucast (ucast x :: u32) :: u64) = x"
    by (simp add: word_unat_eq_iff)
qed

lemma clamp_budget:
  fixes w :: u64 and m :: u32
  shows "(ucast (if w > ucast m then ucast m else w) :: u32) \<le> m"
    and "(ucast (ucast (if w > ucast m then ucast m else w) :: u32) :: u64) = min w (ucast m)"
proof -
  have "(if w > ucast m then ucast m else w) \<le> (ucast m :: u64)" by auto
  from ucast_down_le [OF this]
  show "(ucast (if w > ucast m then ucast m else w) :: u32) \<le> m"
    and "(ucast (ucast (if w > ucast m then ucast m else w) :: u32) :: u64) = min w (ucast m)"
    by (auto simp: min_def)
qed

subsection \<open>The drain and \<open>after_runs\<close> are the same\<close>

lemma cb_queue_update_same [simp]: "cb_queue s = q \<Longrightarrow> s\<lparr>cb_queue := q\<rparr> = s"
  by auto

lemma tasks_of_Nil_dropWhile:
  "tasks_of q = [] \<Longrightarrow> dropWhile (\<lambda>cb. cb = None) q = []"
  by (induction q rule: tasks_of.induct) auto

lemma dropWhile_Nil_tasks_of:
  "dropWhile (\<lambda>cb. cb = None) q = [] \<Longrightarrow> tasks_of q = []"
  by (induction q rule: tasks_of.induct) auto

lemma drain_skip:
  "drain c tr s = drain c tr (s\<lparr>cb_queue := dropWhile (\<lambda>cb. cb = None) (cb_queue s)\<rparr>)"
proof (induction "cb_queue s" arbitrary: s)
  case Nil
  then show ?case by (simp add: Nil [symmetric])
next
  case (Cons cb q)
  show ?case
  proof (cases cb)
    case None
    have "drain c tr s = drain c tr (s\<lparr>cb_queue := q\<rparr>)"
      using Cons(2) None by (subst drain.simps) (simp add: Cons(2) [symmetric])
    also have "\<dots> = drain c tr (s\<lparr>cb_queue := q\<rparr>
                        \<lparr>cb_queue := dropWhile (\<lambda>cb. cb = None) (cb_queue (s\<lparr>cb_queue := q\<rparr>))\<rparr>)"
      by (rule Cons(1)) simp
    finally show ?thesis using Cons(2) None by (simp add: Cons(2) [symmetric])
  next
    case (Some k)
    with Cons(2) show ?thesis by (simp add: Cons(2) [symmetric])
  qed
qed

lemma after_runs_drain:
  "after_runs c runs s = Some s' \<Longrightarrow> drain c tr s = Some (tr @ map RunTask runs, s')"
proof (induction runs arbitrary: s tr)
  case Nil
  then have t: "tasks_of (cb_queue s) = []" and s': "s' = s\<lparr>cb_queue := []\<rparr>"
    by (auto split: if_splits)
  from t have e: "dropWhile (\<lambda>cb. cb = None) (cb_queue s) = []"
    by (rule tasks_of_Nil_dropWhile)
  have "drain c tr s = drain c tr (s\<lparr>cb_queue := []\<rparr>)"
    using drain_skip [of c tr s] e by simp
  also have "\<dots> = Some (tr, s\<lparr>cb_queue := []\<rparr>)"
    by (subst drain.simps) simp
  finally show ?case using s' by simp
next
  case (Cons k ks)
  from Cons(2) obtain q where
    d: "dropWhile (\<lambda>cb. cb = None) (cb_queue s) = Some k # q"
    and a: "after_runs c ks (run_cb c k (s\<lparr>cb_queue := q\<rparr>)) = Some s'"
    by (auto split: list.splits if_splits)
  have "drain c tr s = drain c tr (s\<lparr>cb_queue := Some k # q\<rparr>)"
    using drain_skip [of c tr s] d by simp
  also have "\<dots> = drain c (tr @ [RunTask k]) (run_cb c k (s\<lparr>cb_queue := q\<rparr>))"
    by (subst drain.simps) simp
  also have "\<dots> = Some ((tr @ [RunTask k]) @ map RunTask ks, s')"
    by (rule Cons(1) [OF a])
  finally show ?case by simp
qed

lemma after_runs_skip:
  assumes "cb_queue s = None # q"
  shows "after_runs c runs s = after_runs c runs (s\<lparr>cb_queue := q\<rparr>)"
proof (cases runs)
  case Nil
  with assms show ?thesis by simp
next
  case (Cons k ks)
  with assms show ?thesis
    by (cases "dropWhile (\<lambda>cb. cb = None) q") (simp_all del: dropWhile_eq_Nil_conv)
qed

lemma drain_after_runs:
  assumes "drain c tr s = Some r"
  shows "\<exists>runs. fst r = tr @ map RunTask runs \<and> after_runs c runs s = Some (snd r)"
proof (rule drain.raw_induct
    [where P = "\<lambda>c tr s r. \<exists>runs. fst r = tr @ map RunTask runs \<and> after_runs c runs s = Some (snd r)",
      OF _ assms])
  fix f and c :: "'w collaborators" and tr s r
  assume IH: "\<And>c tr s y. f c tr s = Some y \<Longrightarrow>
                \<exists>runs. fst y = tr @ map RunTask runs \<and> after_runs c runs s = Some (snd y)"
    and body: "(case dequeue (cb_queue s) of
                  None \<Rightarrow> Some (tr, s)
                | Some (None, q) \<Rightarrow> f c tr (s\<lparr>cb_queue := q\<rparr>)
                | Some (Some k, q) \<Rightarrow>
                    f c (tr @ [RunTask k]) (run_cb c k (s\<lparr>cb_queue := q\<rparr>))) = Some r"
  show "\<exists>runs. fst r = tr @ map RunTask runs \<and> after_runs c runs s = Some (snd r)"
  proof (cases "cb_queue s")
    case Nil
    with body have "r = (tr, s)" by simp
    with Nil show ?thesis by (intro exI [of _ "[]"]) simp
  next
    case (Cons cb q)
    show ?thesis
    proof (cases cb)
      case None
      with Cons body have "f c tr (s\<lparr>cb_queue := q\<rparr>) = Some r" by simp
      from IH [OF this] obtain runs where
        "fst r = tr @ map RunTask runs" "after_runs c runs (s\<lparr>cb_queue := q\<rparr>) = Some (snd r)"
        by blast
      with after_runs_skip [of s q c runs] Cons None show ?thesis by auto
    next
      case (Some k)
      with Cons body
      have "f c (tr @ [RunTask k]) (run_cb c k (s\<lparr>cb_queue := q\<rparr>)) = Some r" by simp
      from IH [OF this] obtain runs where
        "fst r = (tr @ [RunTask k]) @ map RunTask runs"
        "after_runs c runs (run_cb c k (s\<lparr>cb_queue := q\<rparr>)) = Some (snd r)"
        by blast
      with Cons Some show ?thesis by (intro exI [of _ "k # runs"]) simp
    qed
  qed
qed

lemma drain_iff:
  "drain c tr s = Some (tr', s') \<longleftrightarrow>
     (\<exists>runs. tr' = tr @ map RunTask runs \<and> after_runs c runs s = Some s')"
  using drain_after_runs [of c tr s "(tr', s')"] after_runs_drain [of c _ s s' tr]
  by auto

lemma map_RunTask_inj: "map RunTask xs = map RunTask ys \<Longrightarrow> xs = ys"
  by (simp add: inj_on_def inj_map_eq_map [of RunTask])

lemma after_runs_facts:
  assumes "after_runs c runs s = Some s1"
  shows "cb_queue s1 = [] \<and>
         (enqueues_only c \<longrightarrow> (\<exists>more. runs = tasks_of (cb_queue s) @ more))"
proof -
  from after_runs_drain [OF assms, of "[]"]
  have "drain c [] s = Some (map RunTask runs, s1)" by simp
  from drain_Some [OF this] show ?thesis
    by (auto simp: drained_def dest!: map_RunTask_inj)
qed

lemma after_runs_total:
  assumes "leaves_queue c"
  shows "\<exists>s1. after_runs c (tasks_of (cb_queue s)) s = Some s1"
proof -
  from drain_total [OF assms, of "[]" s] obtain s1 where
    "drain c [] s = Some (map RunTask (tasks_of (cb_queue s)), s1)" by auto
  from drain_after_runs [OF this] show ?thesis
    by (auto dest!: map_RunTask_inj)
qed

lemma clamp_min: "(if (w :: u64) > x then x else w) = min w x"
  by (auto simp: min_def)

lemma wait_budget_le: "wait_budget c max_wait_ms s \<le> max_wait_ms"
  using clamp_budget(1) [where m = max_wait_ms and w = "fst (checkExpire c (ucast max_wait_ms) s)"]
  by (simp add: wait_budget_def clamp_min)

lemma wait_budget_min:
  "(ucast (wait_budget c max_wait_ms s) :: u64)
     = min (fst (checkExpire c (ucast max_wait_ms) s)) (ucast max_wait_ms)"
  using clamp_budget(2) [where m = max_wait_ms and w = "fst (checkExpire c (ucast max_wait_ms) s)"]
  by (simp add: wait_budget_def clamp_min)

lemma loopOnce_iff:
  "loopOnce c max_wait_ms s = Some r \<longleftrightarrow> iteration c max_wait_ms s r"
proof
  assume l: "loopOnce c max_wait_ms s = Some r"
  then obtain tr1 s1 where d: "drain c [] s = Some (tr1, s1)"
    by (auto simp: loopOnce_def split: option.splits)
  from drain_after_runs [OF d] obtain runs where
    t: "tr1 = map RunTask runs" and a: "after_runs c runs s = Some s1" by auto
  from l d t have "r = (map RunTask runs @
               [CheckExpire (ucast max_wait_ms), PollWait (wait_budget c max_wait_ms s1)],
             poll_wait c (wait_budget c max_wait_ms s1)
               (snd (checkExpire c (ucast max_wait_ms) s1)))"
    by (auto simp: loopOnce_def Let_def wait_budget_def clamp_min split: prod.splits)
  with a show "iteration c max_wait_ms s r" unfolding iteration_def by blast
next
  assume "iteration c max_wait_ms s r"
  then obtain runs s1 where a: "after_runs c runs s = Some s1"
    and r: "r = (map RunTask runs @
               [CheckExpire (ucast max_wait_ms), PollWait (wait_budget c max_wait_ms s1)],
             poll_wait c (wait_budget c max_wait_ms s1)
               (snd (checkExpire c (ucast max_wait_ms) s1)))"
    unfolding iteration_def by blast
  from after_runs_drain [OF a, of "[]"] have "drain c [] s = Some (map RunTask runs, s1)"
    by simp
  with r show "loopOnce c max_wait_ms s = Some r"
    by (auto simp: loopOnce_def Let_def wait_budget_def clamp_min split: prod.splits)
qed

subsection \<open>A drain that does not return\<close>

text \<open>
  With tasks that queue themselves again the queue always holds a closure, and no drain
  that starts with one in the queue returns.
\<close>

lemma drain_requeueing:
  assumes "drain c tr s = Some r"
  shows "\<not> (c = requeueing_tasks \<and> tasks_of (cb_queue s) \<noteq> [])"
proof (rule drain.raw_induct
    [where P = "\<lambda>c tr s r. \<not> (c = requeueing_tasks \<and> tasks_of (cb_queue s) \<noteq> [])",
      OF _ assms])
  fix f and c :: "nat collaborators" and tr s r
  assume IH: "\<And>c tr s y. f c tr s = Some y \<Longrightarrow>
                \<not> (c = requeueing_tasks \<and> tasks_of (cb_queue s) \<noteq> [])"
    and body: "(case dequeue (cb_queue s) of
                  None \<Rightarrow> Some (tr, s)
                | Some (None, q) \<Rightarrow> f c tr (s\<lparr>cb_queue := q\<rparr>)
                | Some (Some k, q) \<Rightarrow>
                    f c (tr @ [RunTask k]) (run_cb c k (s\<lparr>cb_queue := q\<rparr>))) = Some r"
  show "\<not> (c = requeueing_tasks \<and> tasks_of (cb_queue s) \<noteq> [])"
  proof
    assume a: "c = requeueing_tasks \<and> tasks_of (cb_queue s) \<noteq> []"
    show False
    proof (cases "cb_queue s")
      case Nil
      with a show False by simp
    next
      case (Cons cb q)
      show False
      proof (cases cb)
        case None
        with Cons body have "f c tr (s\<lparr>cb_queue := q\<rparr>) = Some r" by simp
        from IH [OF this] a Cons None show False by simp
      next
        case (Some k)
        with Cons body
        have "f c (tr @ [RunTask k]) (run_cb c k (s\<lparr>cb_queue := q\<rparr>)) = Some r" by simp
        from IH [OF this] a show False
          by (simp add: requeueing_tasks_def queueInEventLoop_def enqueue_def tasks_of_append)
      qed
    qed
  qed
qed

lemma loopOnce_requeueing: "loopOnce requeueing_tasks 100 chained_loop = None"
proof (cases "drain requeueing_tasks [] chained_loop")
  case None
  then show ?thesis by (simp add: loopOnce_def)
next
  case (Some r)
  from drain_requeueing [OF this] show ?thesis by (simp add: chained_loop_def)
qed

subsection \<open>The example collaborators\<close>

lemma leaves_queue_quiet_tasks: "leaves_queue quiet_tasks"
  by (simp add: leaves_queue_def quiet_tasks_def)

lemma enqueues_only_chaining_tasks: "enqueues_only chaining_tasks"
  by (simp add: enqueues_only_def chaining_tasks_def enqueue_def)

lemma enqueues_only_requeueing_tasks: "enqueues_only requeueing_tasks"
  by (simp add: enqueues_only_def requeueing_tasks_def queueInEventLoop_def enqueue_def)

lemma after_runs_chaining_tasks:
  "after_runs chaining_tasks [1, 0] chained_loop =
     Some \<lparr>cb_queue = [], stop_loop = True, listeners = [], others = 0\<rparr>"
  by (simp add: chaining_tasks_def chained_loop_def enqueue_def)

lemma after_runs_quiet_tasks:
  "after_runs quiet_tasks [3, 0, 4] example_loop =
     Some \<lparr>cb_queue = [], stop_loop = True, listeners = [7, 8], others = 7\<rparr>"
  by (simp add: quiet_tasks_def example_loop_def)

lemma wait_budget_chaining_tasks:
  "wait_budget chaining_tasks 100 s = 100"
  by (simp add: wait_budget_def chaining_tasks_def)

lemma wait_budget_quiet_tasks:
  "wait_budget quiet_tasks 1000 s = 250"
  by (simp add: wait_budget_def quiet_tasks_def)

lemma collaborators_chaining_tasks:
  "checkExpire chaining_tasks w s = (w + 5000, s)" "poll_wait chaining_tasks b s = s"
  by (simp_all add: chaining_tasks_def)

lemma collaborators_quiet_tasks:
  "checkExpire quiet_tasks w s = (min w 250, s)"
  "poll_wait quiet_tasks b s = s\<lparr>cb_queue := cb_queue s @ [Some 9]\<rparr>"
  by (simp_all add: quiet_tasks_def enqueue_def)

lemma tasks_of_example_loop: "tasks_of (cb_queue example_loop) = [3, 0, 4]"
  by (simp add: example_loop_def)

subsection \<open>The claim\<close>

text \<open>
  C4, as amended. \<^verbatim>\<open>loopOnce\<close> returns exactly when its drain comes to an end, that is
  when there are tasks \<open>runs\<close> that, taken one after the other from the front of the
  queue and run, leave a queue without closures. It has then made these steps, in this
  order, and nothing else: the runs of these tasks, each on the state the runs before
  have left; \<^verbatim>\<open>checkExpire\<close>, given \<^verbatim>\<open>max_wait_ms\<close>; the multiplexer's \<^verbatim>\<open>wait\<close>, given the
  smaller of the timer's answer and \<^verbatim>\<open>max_wait_ms\<close>, which is at most \<^verbatim>\<open>max_wait_ms\<close>. After
  the drain the queue is empty, and when tasks touch the queue by enqueueing only, the
  runs start with the tasks that were queued at the call, front first. When no task
  touches the queue, \<^verbatim>\<open>loopOnce\<close> does return, having run exactly the queued tasks.
\<close>

theorem loopOnce_steps:
  "(loopOnce c max_wait_ms s = Some (tr, s') \<longleftrightarrow>
      (\<exists>runs s1.
         after_runs c runs s = Some s1 \<and>
         tr = map RunTask runs @
                [CheckExpire (ucast max_wait_ms), PollWait (wait_budget c max_wait_ms s1)] \<and>
         s' = poll_wait c (wait_budget c max_wait_ms s1)
                (snd (checkExpire c (ucast max_wait_ms) s1)))) \<and>
   (after_runs c runs s = Some sd \<longrightarrow>
      cb_queue sd = [] \<and>
      (enqueues_only c \<longrightarrow> (\<exists>more. runs = tasks_of (cb_queue s) @ more))) \<and>
   wait_budget c max_wait_ms sd \<le> max_wait_ms \<and>
   (ucast (wait_budget c max_wait_ms sd) :: u64)
      = min (fst (checkExpire c (ucast max_wait_ms) sd)) (ucast max_wait_ms) \<and>
   (leaves_queue c \<longrightarrow>
      (\<exists>s1. after_runs c (tasks_of (cb_queue s)) s = Some s1 \<and>
            loopOnce c max_wait_ms s =
              Some (map RunTask (tasks_of (cb_queue s)) @
                      [CheckExpire (ucast max_wait_ms), PollWait (wait_budget c max_wait_ms s1)],
                    poll_wait c (wait_budget c max_wait_ms s1)
                      (snd (checkExpire c (ucast max_wait_ms) s1)))))"
proof -
  have a: "loopOnce c max_wait_ms s = Some (tr, s') \<longleftrightarrow>
      (\<exists>runs s1.
         after_runs c runs s = Some s1 \<and>
         tr = map RunTask runs @
                [CheckExpire (ucast max_wait_ms), PollWait (wait_budget c max_wait_ms s1)] \<and>
         s' = poll_wait c (wait_budget c max_wait_ms s1)
                (snd (checkExpire c (ucast max_wait_ms) s1)))"
    by (simp add: loopOnce_iff iteration_def)
  have b: "after_runs c runs s = Some sd \<longrightarrow>
      cb_queue sd = [] \<and>
      (enqueues_only c \<longrightarrow> (\<exists>more. runs = tasks_of (cb_queue s) @ more))"
    using after_runs_facts [of c runs s sd] by blast
  have e: "leaves_queue c \<longrightarrow>
      (\<exists>s1. after_runs c (tasks_of (cb_queue s)) s = Some s1 \<and>
            loopOnce c max_wait_ms s =
              Some (map RunTask (tasks_of (cb_queue s)) @
                      [CheckExpire (ucast max_wait_ms), PollWait (wait_budget c max_wait_ms s1)],
                    poll_wait c (wait_budget c max_wait_ms s1)
                      (snd (checkExpire c (ucast max_wait_ms) s1))))"
  proof
    assume "leaves_queue c"
    from after_runs_total [OF this, of s] obtain s1 where
      s1: "after_runs c (tasks_of (cb_queue s)) s = Some s1" by blast
    then have "iteration c max_wait_ms s
       (map RunTask (tasks_of (cb_queue s)) @
          [CheckExpire (ucast max_wait_ms), PollWait (wait_budget c max_wait_ms s1)],
        poll_wait c (wait_budget c max_wait_ms s1)
          (snd (checkExpire c (ucast max_wait_ms) s1)))"
      unfolding iteration_def by blast
    with s1 show "\<exists>s1. after_runs c (tasks_of (cb_queue s)) s = Some s1 \<and>
            loopOnce c max_wait_ms s =
              Some (map RunTask (tasks_of (cb_queue s)) @
                      [CheckExpire (ucast max_wait_ms), PollWait (wait_budget c max_wait_ms s1)],
                    poll_wait c (wait_budget c max_wait_ms s1)
                      (snd (checkExpire c (ucast max_wait_ms) s1)))"
      by (auto simp: loopOnce_iff)
  qed
  from a b e wait_budget_le [of c max_wait_ms sd] wait_budget_min [of c max_wait_ms sd]
  show ?thesis by blast
qed

theorem loopOnce_steps_witness:
  "loopOnce chaining_tasks 100 chained_loop =
     Some ([RunTask 1, RunTask 0, CheckExpire 100, PollWait 100],
           \<lparr>cb_queue = [], stop_loop = True, listeners = [], others = 0\<rparr>) \<and>
   after_runs chaining_tasks [1, 0] chained_loop =
     Some \<lparr>cb_queue = [], stop_loop = True, listeners = [], others = 0\<rparr> \<and>
   enqueues_only chaining_tasks \<and>
   (\<exists>more. [1, 0] = tasks_of (cb_queue chained_loop) @ more) \<and>
   leaves_queue quiet_tasks \<and>
   loopOnce quiet_tasks 1000 example_loop =
     Some ([RunTask 3, RunTask 0, RunTask 4, CheckExpire 1000, PollWait 250],
           \<lparr>cb_queue = [Some 9], stop_loop = True, listeners = [7, 8], others = 7\<rparr>)"
proof -
  let ?sd = "\<lparr>cb_queue = [], stop_loop = True, listeners = [], others = 0 :: nat\<rparr>"
  note t = loopOnce_steps [where c = chaining_tasks and max_wait_ms = 100 and s = chained_loop
          and runs = "[1, 0]" and sd = ?sd
          and tr = "[RunTask 1, RunTask 0, CheckExpire 100, PollWait 100]" and s' = ?sd]
  have "\<exists>runs s1.
          after_runs chaining_tasks runs chained_loop = Some s1 \<and>
          [RunTask 1, RunTask 0, CheckExpire 100, PollWait 100] =
            map RunTask runs @ [CheckExpire (ucast (100 :: u32)),
                                PollWait (wait_budget chaining_tasks 100 s1)] \<and>
          ?sd = poll_wait chaining_tasks (wait_budget chaining_tasks 100 s1)
                  (snd (checkExpire chaining_tasks (ucast (100 :: u32)) s1))"
    using after_runs_chaining_tasks
    by (intro exI [of _ "[1, 0]"] exI [of _ ?sd])
       (simp add: wait_budget_chaining_tasks collaborators_chaining_tasks)
  with t have 1: "loopOnce chaining_tasks 100 chained_loop =
                    Some ([RunTask 1, RunTask 0, CheckExpire 100, PollWait 100], ?sd)"
    by blast
  from t after_runs_chaining_tasks enqueues_only_chaining_tasks
  have 2: "\<exists>more. [1, 0] = tasks_of (cb_queue chained_loop) @ more"
    by blast
  from loopOnce_steps [where c = quiet_tasks and max_wait_ms = 1000 and s = example_loop]
       leaves_queue_quiet_tasks
  obtain s1 where
    "after_runs quiet_tasks (tasks_of (cb_queue example_loop)) example_loop = Some s1"
    "loopOnce quiet_tasks 1000 example_loop =
       Some (map RunTask (tasks_of (cb_queue example_loop)) @
               [CheckExpire (ucast (1000 :: u32)), PollWait (wait_budget quiet_tasks 1000 s1)],
             poll_wait quiet_tasks (wait_budget quiet_tasks 1000 s1)
               (snd (checkExpire quiet_tasks (ucast (1000 :: u32)) s1)))"
    by blast
  with after_runs_quiet_tasks have 3: "loopOnce quiet_tasks 1000 example_loop =
     Some ([RunTask 3, RunTask 0, RunTask 4, CheckExpire 1000, PollWait 250],
           \<lparr>cb_queue = [Some 9], stop_loop = True, listeners = [7, 8], others = 7\<rparr>)"
    by (auto simp: tasks_of_example_loop wait_budget_quiet_tasks collaborators_quiet_tasks)
  from 1 2 3 after_runs_chaining_tasks enqueues_only_chaining_tasks leaves_queue_quiet_tasks
  show ?thesis by simp
qed

text \<open>
  C4 as it is stated fails for a task that queues itself again each time it runs:
  the drain of \<^verbatim>\<open>loopOnce\<close> does not end, and neither \<^verbatim>\<open>checkExpire\<close> nor \<^verbatim>\<open>wait\<close> is
  reached.
\<close>

theorem loopOnce_requeueing_never_returns:
  "enqueues_only requeueing_tasks \<and>
   cb_queue chained_loop = [Some 1] \<and>
   loopOnce requeueing_tasks 100 chained_loop = None"
  using enqueues_only_requeueing_tasks loopOnce_requeueing
  by (simp add: chained_loop_def)

section \<open>The loop: C5\<close>

subsection \<open>The \<^verbatim>\<open>while\<close> loop and the walk over the listeners\<close>

lemma loop_while_iterations:
  assumes "loop_while c max_wait_ms tr s = Some r"
  shows "\<exists>tr'. fst r = tr @ tr' \<and> iterations c max_wait_ms s tr' (snd r)"
proof (rule loop_while.raw_induct
    [where P = "\<lambda>c max_wait_ms tr s r.
                  \<exists>tr'. fst r = tr @ tr' \<and> iterations c max_wait_ms s tr' (snd r)",
      OF _ assms])
  fix f and c :: "'w collaborators" and max_wait_ms tr s r
  assume IH: "\<And>c max_wait_ms tr s y. f c max_wait_ms tr s = Some y \<Longrightarrow>
                \<exists>tr'. fst y = tr @ tr' \<and> iterations c max_wait_ms s tr' (snd y)"
    and body: "(if \<not> stop_loop s
                then case loopOnce c max_wait_ms s of
                       None \<Rightarrow> None
                     | Some (tr', s') \<Rightarrow> f c max_wait_ms (tr @ tr') s'
                else Some (tr, s)) = Some r"
  show "\<exists>tr'. fst r = tr @ tr' \<and> iterations c max_wait_ms s tr' (snd r)"
  proof (cases "stop_loop s")
    case True
    with body have "r = (tr, s)" by simp
    with True show ?thesis by (auto intro: iterations.stopped)
  next
    case False
    with body obtain tr1 s1 where o: "loopOnce c max_wait_ms s = Some (tr1, s1)"
      and n: "f c max_wait_ms (tr @ tr1) s1 = Some r"
      by (auto split: option.splits)
    from o have i: "iteration c max_wait_ms s (tr1, s1)" by (simp add: loopOnce_iff)
    from IH [OF n] obtain tr' where
      "fst r = (tr @ tr1) @ tr'" "iterations c max_wait_ms s1 tr' (snd r)"
      by auto
    with False i show ?thesis
      by (intro exI [of _ "tr1 @ tr'"]) (auto intro: iterations.again)
  qed
qed

lemma iterations_loop_while:
  assumes "iterations c max_wait_ms s tr' s'"
  shows "loop_while c max_wait_ms tr s = Some (tr @ tr', s')"
  using assms
proof (induction arbitrary: tr)
  case (stopped s)
  then show ?case by (subst loop_while.simps) simp
next
  case (again s tr1 s1 tr2 s2)
  from again(2) have "loopOnce c max_wait_ms s = Some (tr1, s1)" by (simp add: loopOnce_iff)
  with again(1) again(4) [of "tr @ tr1"] show ?case
    by (subst loop_while.simps) simp
qed

lemma loop_while_iff:
  "loop_while c max_wait_ms tr s = Some (tr', s') \<longleftrightarrow>
     (\<exists>tr''. tr' = tr @ tr'' \<and> iterations c max_wait_ms s tr'' s')"
  using loop_while_iterations [of c max_wait_ms tr s "(tr', s')"]
        iterations_loop_while [of c max_wait_ms s _ s' tr]
  by auto

lemma iteration_no_stops: "iteration c max_wait_ms s (tr, s') \<Longrightarrow> stops tr = []"
  by (auto simp: iteration_def stops_append stops_RunTask)

lemma iterations_facts:
  "iterations c max_wait_ms s tr s' \<Longrightarrow> stop_loop s' \<and> stops tr = []"
  by (induction rule: iterations.induct) (auto simp: stops_append dest: iteration_no_stops)

lemma steady_listeners: "steady c ls s \<Longrightarrow> listeners (after_stops c ls s) = listeners s"
  by (induction ls arbitrary: s) (auto simp: after_stops_def)

lemma notify_listeners_eq:
  "notify_listeners c ls tr s =
     (if steady c ls s then Inr (tr @ map LoopStopped ls, after_stops c ls s)
      else Inl IteratorInvalidated)"
  by (induction ls arbitrary: tr s) (auto simp: after_stops_def Let_def)

lemma loop_iff:
  "loop c max_wait_ms s = Some (Inr (tr, s')) \<longleftrightarrow>
     (\<exists>tr0 s0 runs s1.
        iterations c max_wait_ms s tr0 s0 \<and> after_runs c runs s0 = Some s1 \<and>
        steady c (listeners s1) s1 \<and>
        tr = tr0 @ map RunTask runs @ map LoopStopped (listeners s1)
               @ [Trace (KUMA_INFOTRACE ''EventLoop::loop, stopped'')] \<and>
        s' = (after_stops c (listeners s1) s1)\<lparr>listeners := []\<rparr>)"
proof
  assume l: "loop c max_wait_ms s = Some (Inr (tr, s'))"
  then obtain tr0 s0 where w: "loop_while c max_wait_ms [] s = Some (tr0, s0)"
    by (auto simp: loop_def split: option.splits)
  then have i: "iterations c max_wait_ms s tr0 s0" by (simp add: loop_while_iff)
  from l w obtain tr1 s1 where d: "drain c tr0 s0 = Some (tr1, s1)"
    by (auto simp: loop_def split: option.splits)
  then obtain runs where t: "tr1 = tr0 @ map RunTask runs"
    and a: "after_runs c runs s0 = Some s1"
    by (auto simp: drain_iff)
  from l w d have n: "steady c (listeners s1) s1"
    "tr = tr1 @ map LoopStopped (listeners s1)
            @ [Trace (KUMA_INFOTRACE ''EventLoop::loop, stopped'')]"
    "s' = (after_stops c (listeners s1) s1)\<lparr>listeners := []\<rparr>"
    by (auto simp: loop_def notify_listeners_eq split: if_splits)
  with i a t show "\<exists>tr0 s0 runs s1.
        iterations c max_wait_ms s tr0 s0 \<and> after_runs c runs s0 = Some s1 \<and>
        steady c (listeners s1) s1 \<and>
        tr = tr0 @ map RunTask runs @ map LoopStopped (listeners s1)
               @ [Trace (KUMA_INFOTRACE ''EventLoop::loop, stopped'')] \<and>
        s' = (after_stops c (listeners s1) s1)\<lparr>listeners := []\<rparr>"
    by (intro exI [of _ tr0] exI [of _ s0] exI [of _ runs] exI [of _ s1]) simp
next
  assume "\<exists>tr0 s0 runs s1.
        iterations c max_wait_ms s tr0 s0 \<and> after_runs c runs s0 = Some s1 \<and>
        steady c (listeners s1) s1 \<and>
        tr = tr0 @ map RunTask runs @ map LoopStopped (listeners s1)
               @ [Trace (KUMA_INFOTRACE ''EventLoop::loop, stopped'')] \<and>
        s' = (after_stops c (listeners s1) s1)\<lparr>listeners := []\<rparr>"
  then obtain tr0 s0 runs s1 where
    i: "iterations c max_wait_ms s tr0 s0" and a: "after_runs c runs s0 = Some s1"
    and n: "steady c (listeners s1) s1"
    and r: "tr = tr0 @ map RunTask runs @ map LoopStopped (listeners s1)
               @ [Trace (KUMA_INFOTRACE ''EventLoop::loop, stopped'')]"
       "s' = (after_stops c (listeners s1) s1)\<lparr>listeners := []\<rparr>"
    by blast
  from iterations_loop_while [OF i, of "[]"]
  have w: "loop_while c max_wait_ms [] s = Some (tr0, s0)" by simp
  from after_runs_drain [OF a, of tr0]
  have d: "drain c tr0 s0 = Some (tr0 @ map RunTask runs, s1)" .
  from w d n r show "loop c max_wait_ms s = Some (Inr (tr, s'))"
    by (simp add: loop_def notify_listeners_eq)
qed

lemma loop_invalidated_iff:
  "loop c max_wait_ms s = Some (Inl e) \<longleftrightarrow>
     (\<exists>tr0 s0 runs s1.
        iterations c max_wait_ms s tr0 s0 \<and> after_runs c runs s0 = Some s1 \<and>
        \<not> steady c (listeners s1) s1)"
proof
  assume l: "loop c max_wait_ms s = Some (Inl e)"
  then obtain tr0 s0 where w: "loop_while c max_wait_ms [] s = Some (tr0, s0)"
    by (auto simp: loop_def split: option.splits)
  then have i: "iterations c max_wait_ms s tr0 s0" by (simp add: loop_while_iff)
  from l w obtain tr1 s1 where d: "drain c tr0 s0 = Some (tr1, s1)"
    by (auto simp: loop_def split: option.splits)
  then obtain runs where a: "after_runs c runs s0 = Some s1"
    by (auto simp: drain_iff)
  from l w d have "\<not> steady c (listeners s1) s1"
    by (auto simp: loop_def notify_listeners_eq split: if_splits)
  with i a show "\<exists>tr0 s0 runs s1.
        iterations c max_wait_ms s tr0 s0 \<and> after_runs c runs s0 = Some s1 \<and>
        \<not> steady c (listeners s1) s1" by blast
next
  assume "\<exists>tr0 s0 runs s1.
        iterations c max_wait_ms s tr0 s0 \<and> after_runs c runs s0 = Some s1 \<and>
        \<not> steady c (listeners s1) s1"
  then obtain tr0 s0 runs s1 where
    i: "iterations c max_wait_ms s tr0 s0" and a: "after_runs c runs s0 = Some s1"
    and n: "\<not> steady c (listeners s1) s1"
    by blast
  from iterations_loop_while [OF i, of "[]"]
  have w: "loop_while c max_wait_ms [] s = Some (tr0, s0)" by simp
  from after_runs_drain [OF a, of tr0]
  have d: "drain c tr0 s0 = Some (tr0 @ map RunTask runs, s1)" .
  from w d n show "loop c max_wait_ms s = Some (Inl e)"
    by (cases e) (simp add: loop_def notify_listeners_eq)
qed

subsection \<open>The example collaborators\<close>

lemma loopOnce_quiet_tasks:
  "loopOnce quiet_tasks 1000 example_loop =
     Some ([RunTask 3, RunTask 0, RunTask 4, CheckExpire 1000, PollWait 250],
           \<lparr>cb_queue = [Some 9], stop_loop = True, listeners = [7, 8], others = 7\<rparr>)"
  by (simp add: loopOnce_def drain.simps quiet_tasks_def example_loop_def enqueue_def)

lemma iterations_quiet_tasks:
  "iterations quiet_tasks 1000 example_loop
     [RunTask 3, RunTask 0, RunTask 4, CheckExpire 1000, PollWait 250]
     \<lparr>cb_queue = [Some 9], stop_loop = True, listeners = [7, 8], others = 7\<rparr>"
proof -
  let ?tr = "[RunTask 3, RunTask 0, RunTask 4, CheckExpire 1000, PollWait 250]"
  let ?s = "\<lparr>cb_queue = [Some 9], stop_loop = True, listeners = [7, 8], others = 7 :: nat\<rparr>"
  have "\<not> stop_loop example_loop" by (simp add: example_loop_def)
  moreover have "iteration quiet_tasks 1000 example_loop (?tr, ?s)"
    using loopOnce_quiet_tasks by (simp add: loopOnce_iff)
  moreover have "iterations quiet_tasks 1000 ?s [] ?s"
    by (rule iterations.stopped) simp
  ultimately have "iterations quiet_tasks 1000 example_loop (?tr @ []) ?s"
    by (rule iterations.again)
  then show ?thesis by simp
qed

lemma after_runs_final_quiet_tasks:
  "after_runs quiet_tasks [9]
     \<lparr>cb_queue = [Some 9], stop_loop = True, listeners = [7, 8], others = 7\<rparr>
   = Some \<lparr>cb_queue = [], stop_loop = True, listeners = [7, 8], others = 16\<rparr>"
  by (simp add: quiet_tasks_def)

lemma steady_quiet_tasks: "steady quiet_tasks ls s"
  by (induction ls arbitrary: s) (simp_all add: quiet_tasks_def)

lemma loop_quiet_tasks:
  "loop quiet_tasks 1000 example_loop =
     Some (Inr ([RunTask 3, RunTask 0, RunTask 4, CheckExpire 1000, PollWait 250, RunTask 9,
                 LoopStopped 7, LoopStopped 8,
                 Trace (KUMA_INFOTRACE ''EventLoop::loop, stopped'')],
                \<lparr>cb_queue = [], stop_loop = True, listeners = [], others = 216\<rparr>))"
  by (simp add: loop_def loop_while.simps loopOnce_def drain.simps
        quiet_tasks_def example_loop_def enqueue_def)

text \<open>
  A listener whose notification removes another listener: the walk is not defined, and
  \<^verbatim>\<open>loop\<close> ends with the error.
\<close>

lemma loop_removing_listeners:
  "loop removing_listeners 1000 stopped_loop = Some (Inl IteratorInvalidated)"
  by (simp add: loop_def loop_while.simps drain.simps removing_listeners_def stopped_loop_def
        removeListener_def)

subsection \<open>The claim\<close>

text \<open>
  C5, as amended. When \<^verbatim>\<open>loop\<close> returns, no \<^verbatim>\<open>loopStopped\<close> having changed the listener
  list while it was walked: the \<^verbatim>\<open>while\<close> loop has made whole iterations and ended in a
  state with the stop flag set; the drain after it has run the tasks then in the queue,
  front first, and has left the queue empty; then \<^verbatim>\<open>loopStopped\<close> has been called once
  for each entry of the listener list, in the order of the list, and for nothing else,
  which is exactly once for each listener when no listener is in the list twice; and
  the listener list is empty. Conversely, iterations that end with the stop flag set, a
  drain that ends and listeners that leave the list alone make \<^verbatim>\<open>loop\<close> return, with
  exactly these steps.
\<close>

theorem loop_returns:
  "(loop c max_wait_ms s = Some (Inr (tr, s')) \<longrightarrow>
      listeners s' = [] \<and>
      (\<exists>tr0 s0 runs s1.
         iterations c max_wait_ms s tr0 s0 \<and> stop_loop s0 \<and>
         after_runs c runs s0 = Some s1 \<and> cb_queue s1 = [] \<and>
         (enqueues_only c \<longrightarrow> (\<exists>more. runs = tasks_of (cb_queue s0) @ more)) \<and>
         steady c (listeners s1) s1 \<and>
         tr = tr0 @ map RunTask runs @ map LoopStopped (listeners s1)
                @ [Trace (KUMA_INFOTRACE ''EventLoop::loop, stopped'')] \<and>
         stops tr = listeners s1 \<and>
         (distinct (listeners s1) \<longrightarrow>
            (\<forall>l \<in> set (listeners s1). count_list (stops tr) l = 1)) \<and>
         s' = (after_stops c (listeners s1) s1)\<lparr>listeners := []\<rparr>)) \<and>
   (iterations c max_wait_ms s trw sw \<and> after_runs c runs sw = Some sd \<and>
    steady c (listeners sd) sd \<longrightarrow>
      loop c max_wait_ms s =
        Some (Inr (trw @ map RunTask runs @ map LoopStopped (listeners sd)
                     @ [Trace (KUMA_INFOTRACE ''EventLoop::loop, stopped'')],
                   (after_stops c (listeners sd) sd)\<lparr>listeners := []\<rparr>)))"
proof (intro conjI impI)
  assume "loop c max_wait_ms s = Some (Inr (tr, s'))"
  then obtain tr0 s0 runs s1 where
    h: "iterations c max_wait_ms s tr0 s0" "after_runs c runs s0 = Some s1"
       "steady c (listeners s1) s1"
       "tr = tr0 @ map RunTask runs @ map LoopStopped (listeners s1)
               @ [Trace (KUMA_INFOTRACE ''EventLoop::loop, stopped'')]"
       "s' = (after_stops c (listeners s1) s1)\<lparr>listeners := []\<rparr>"
    unfolding loop_iff by blast
  from h(5) show "listeners s' = []" by simp
  from iterations_facts [OF h(1)] have st: "stop_loop s0" and n: "stops tr0 = []" by auto
  from after_runs_facts [OF h(2)] have q: "cb_queue s1 = []"
    and p: "enqueues_only c \<longrightarrow> (\<exists>more. runs = tasks_of (cb_queue s0) @ more)" by auto
  from h(4) n have sl: "stops tr = listeners s1"
    by (simp add: stops_append stops_RunTask stops_LoopStopped)
  then have d: "distinct (listeners s1) \<longrightarrow>
                  (\<forall>l \<in> set (listeners s1). count_list (stops tr) l = 1)"
    by (simp add: count_list_distinct)
  from h st q p sl d show "\<exists>tr0 s0 runs s1.
         iterations c max_wait_ms s tr0 s0 \<and> stop_loop s0 \<and>
         after_runs c runs s0 = Some s1 \<and> cb_queue s1 = [] \<and>
         (enqueues_only c \<longrightarrow> (\<exists>more. runs = tasks_of (cb_queue s0) @ more)) \<and>
         steady c (listeners s1) s1 \<and>
         tr = tr0 @ map RunTask runs @ map LoopStopped (listeners s1)
                @ [Trace (KUMA_INFOTRACE ''EventLoop::loop, stopped'')] \<and>
         stops tr = listeners s1 \<and>
         (distinct (listeners s1) \<longrightarrow>
            (\<forall>l \<in> set (listeners s1). count_list (stops tr) l = 1)) \<and>
         s' = (after_stops c (listeners s1) s1)\<lparr>listeners := []\<rparr>"
    by blast
next
  assume "iterations c max_wait_ms s trw sw \<and> after_runs c runs sw = Some sd \<and>
          steady c (listeners sd) sd"
  then show "loop c max_wait_ms s =
        Some (Inr (trw @ map RunTask runs @ map LoopStopped (listeners sd)
                     @ [Trace (KUMA_INFOTRACE ''EventLoop::loop, stopped'')],
                   (after_stops c (listeners sd) sd)\<lparr>listeners := []\<rparr>))"
    unfolding loop_iff by blast
qed

theorem loop_returns_witness:
  "loop quiet_tasks 1000 example_loop =
     Some (Inr ([RunTask 3, RunTask 0, RunTask 4, CheckExpire 1000, PollWait 250, RunTask 9,
                 LoopStopped 7, LoopStopped 8,
                 Trace (KUMA_INFOTRACE ''EventLoop::loop, stopped'')],
                \<lparr>cb_queue = [], stop_loop = True, listeners = [], others = 216\<rparr>)) \<and>
   iterations quiet_tasks 1000 example_loop
     [RunTask 3, RunTask 0, RunTask 4, CheckExpire 1000, PollWait 250]
     \<lparr>cb_queue = [Some 9], stop_loop = True, listeners = [7, 8], others = 7\<rparr> \<and>
   after_runs quiet_tasks [9]
     \<lparr>cb_queue = [Some 9], stop_loop = True, listeners = [7, 8], others = 7\<rparr>
     = Some \<lparr>cb_queue = [], stop_loop = True, listeners = [7, 8], others = 16\<rparr> \<and>
   steady quiet_tasks [7, 8]
     \<lparr>cb_queue = [], stop_loop = True, listeners = [7, 8], others = 16\<rparr> \<and>
   enqueues_only quiet_tasks \<and>
   distinct [7, 8 :: nat] \<and>
   stops [RunTask 3, RunTask 0, RunTask 4, CheckExpire 1000, PollWait 250, RunTask 9,
          LoopStopped 7, LoopStopped 8, Trace (KUMA_INFOTRACE ''EventLoop::loop, stopped'')]
     = [7, 8]"
proof -
  let ?sw = "\<lparr>cb_queue = [Some 9], stop_loop = True, listeners = [7, 8], others = 7 :: nat\<rparr>"
  let ?sd = "\<lparr>cb_queue = [], stop_loop = True, listeners = [7, 8], others = 16 :: nat\<rparr>"
  have st: "steady quiet_tasks (listeners ?sd) ?sd" by (rule steady_quiet_tasks)
  have a: "after_stops quiet_tasks [7, 8] ?sd
             = \<lparr>cb_queue = [], stop_loop = True, listeners = [7, 8], others = 216\<rparr>"
    by (simp add: after_stops_def quiet_tasks_def)
  from loop_returns [where c = quiet_tasks and max_wait_ms = 1000 and s = example_loop
         and trw = "[RunTask 3, RunTask 0, RunTask 4, CheckExpire 1000, PollWait 250]"
         and sw = ?sw and runs = "[9]" and sd = ?sd]
       iterations_quiet_tasks after_runs_final_quiet_tasks st
  have "loop quiet_tasks 1000 example_loop =
        Some (Inr ([RunTask 3, RunTask 0, RunTask 4, CheckExpire 1000, PollWait 250]
                     @ map RunTask [9] @ map LoopStopped (listeners ?sd)
                     @ [Trace (KUMA_INFOTRACE ''EventLoop::loop, stopped'')],
                   (after_stops quiet_tasks (listeners ?sd) ?sd)\<lparr>listeners := []\<rparr>))"
    by blast
  with a have "loop quiet_tasks 1000 example_loop =
     Some (Inr ([RunTask 3, RunTask 0, RunTask 4, CheckExpire 1000, PollWait 250, RunTask 9,
                 LoopStopped 7, LoopStopped 8,
                 Trace (KUMA_INFOTRACE ''EventLoop::loop, stopped'')],
                \<lparr>cb_queue = [], stop_loop = True, listeners = [], others = 216\<rparr>))"
    by simp
  with iterations_quiet_tasks after_runs_final_quiet_tasks st
       leaves_queue_enqueues_only [OF leaves_queue_quiet_tasks]
  show ?thesis by simp
qed

text \<open>
  C5 as it is stated fails when a listener was added twice: \<^verbatim>\<open>addListener\<close> appends
  without looking, and \<^verbatim>\<open>loop\<close> calls \<^verbatim>\<open>loopStopped\<close> of listener 7 twice.
\<close>

theorem loop_listener_added_twice:
  "loop quiet_tasks 1000 twice_added_loop =
     Some (Inr ([RunTask 0, CheckExpire 1000, PollWait 250, RunTask 9,
                 LoopStopped 7, LoopStopped 7,
                 Trace (KUMA_INFOTRACE ''EventLoop::loop, stopped'')],
                \<lparr>cb_queue = [], stop_loop = True, listeners = [], others = 209\<rparr>)) \<and>
   count_list
     (stops [RunTask 0, CheckExpire 1000, PollWait 250, RunTask 9,
             LoopStopped 7, LoopStopped 7, Trace (KUMA_INFOTRACE ''EventLoop::loop, stopped'')])
     7 = 2"
  by (simp add: loop_def loop_while.simps loopOnce_def drain.simps
        quiet_tasks_def twice_added_loop_def addListener_def enqueue_def)

end
